theory Spec2Isabelle
  imports Main "HOL-Library.Word" "HOL-Library.Sublist"
begin

section \<open>Data model\<close>

text \<open>
  The embedding follows \<^verbatim>\<open>lib/Sema/TypeCheckExpr.cpp\<close>. The classes of the syntax tree,
  of types and of declarations are declared in headers outside this file; each is modelled
  with the members that the file reads or writes. Pointers that may be null are
  \<open>option\<close> values, node identity is structural equality, and every assertion, null
  dereference and out-of-range read of the source is a branch that returns an \<open>error\<close>.
  Nodes that the source updates in place (\<^verbatim>\<open>setCondExpr\<close>, \<^verbatim>\<open>setSubExpr\<close>, ...) are
  returned updated.
\<close>

datatype error = AssertionFailure | NullPointer | OutOfBounds

type_synonym Identifier = string

text \<open>A source location; \<open>None\<close> is the invalid location \<^verbatim>\<open>SourceLoc()\<close>.\<close>

type_synonym SourceLoc = "nat option"

definition isValid :: "SourceLoc \<Rightarrow> bool" where
  "isValid l = (l \<noteq> None)"

text \<open>
  Types, with type aliases as the only sugar. The storage qualifiers are the wrappers
  \<^verbatim>\<open>InOutType\<close>, \<^verbatim>\<open>LValueType\<close>, \<^verbatim>\<open>WeakStorageType\<close> and \<^verbatim>\<open>UnownedStorageType\<close>.
\<close>

datatype Type =
    NominalType Identifier
  | NameAliasType Identifier Type
  | TupleType "Type list"
  | FunctionType Type Type
  | InOutType Type
  | LValueType Type
  | WeakStorageType Type
  | UnownedStorageType Type
  | OptionalType Type
  | ErrorType

text \<open>
  A declaration context with its chain of parents; \<open>isLocalContext\<close> is the context's own
  flag (function bodies and closures are local, modules and files are not).
\<close>

datatype DeclContext =
  DeclContext (getContextName: Identifier) (isLocalContext: bool) (getParent: "DeclContext option")

record ValueDecl =
  getName :: Identifier
  getDeclContext :: DeclContext
  isVarDecl :: bool
  getType :: Type
  getInterfaceType :: Type

text \<open>
  Modelled from the spec: \<^verbatim>\<open>InfixData\<close> is declared outside this file. The spec gives a
  pair of a precedence, an unsigned small integer, and an associativity (left, right or
  none), compared structurally. The precedence has eight bits: the file's infinite
  precedence is \<^verbatim>\<open>(unsigned char)~0U\<close>.
\<close>

datatype Associativity = AssocNone | AssocLeft | AssocRight

datatype InfixData = InfixData (getPrecedence: "8 word") (getAssociativity: Associativity)

definition isLeftAssociative :: "InfixData \<Rightarrow> bool" where
  "isLeftAssociative d = (getAssociativity d = AssocLeft)"

definition isRightAssociative :: "InfixData \<Rightarrow> bool" where
  "isRightAssociative d = (getAssociativity d = AssocRight)"

definition isNonAssociative :: "InfixData \<Rightarrow> bool" where
  "isNonAssociative d = (getAssociativity d = AssocNone)"

text \<open>
  Expression nodes. Every node carries the implicit bit of the \<^verbatim>\<open>Expr\<close> base class; the
  operands of the three pseudo-operators are null until the sequence is folded. A closure
  carries its own declaration context, its capture list and the expressions of its body.
\<close>

datatype Expr = Expr (isImplicit: bool) (getKind: ExprKind)
and ExprKind =
    DeclRefExpr ValueDecl
  | OverloadedDeclRefExpr "ValueDecl list"
  | IfExpr "Expr option" "Expr option" "Expr option"
  | AssignExpr "Expr option" "Expr option"
  | ExplicitCastExpr "Expr option" SourceLoc Type
  | ForceValueExpr Expr SourceLoc
  | TupleExpr "Expr list"
  | BinaryExpr Expr Expr
  | AbstractClosureExpr DeclContext "ValueDecl list" "Expr list"
  | OtherExpr Identifier "Expr list"

datatype Diag =
    unknown_binop
  | non_assoc_adjacent
  | incompatible_assoc
  | optional_intrinsics_not_found

text \<open>
  A diagnostic is recorded with the node or declaration whose location it is reported at.
\<close>

datatype DiagLoc = AtExpr Expr | AtDecl ValueDecl

record TypeChecker =
  Diags :: "(DiagLoc \<times> Diag) list"
  hasOptionalIntrinsics :: bool

definition diagnose :: "TypeChecker \<Rightarrow> DiagLoc \<Rightarrow> Diag \<Rightarrow> TypeChecker" where
  "diagnose TC loc d = TC\<lparr>Diags := Diags TC @ [(loc, d)]\<rparr>"

text \<open>
  The source file reached through \<^verbatim>\<open>DC->getParentSourceFile()\<close>: its table of declared
  infix operators, asked by name at the location of the referring expression.
\<close>

record SourceFile =
  lookupInfixOperator :: "Identifier \<Rightarrow> Expr \<Rightarrow> InfixData option"

section \<open>Sequence folding\<close>

text \<open>
  Modelled from the spec: \<^verbatim>\<open>isFolded()\<close> of the three pseudo-operator nodes is declared
  outside this file. Folding attaches the condition and the else-expression of a ternary,
  the destination and the source of an assignment and the subject of a cast; a node is
  folded when these are present.
\<close>

fun isFolded :: "ExprKind \<Rightarrow> bool" where
  "isFolded (IfExpr c t e) = (c \<noteq> None \<and> e \<noteq> None)"
| "isFolded (AssignExpr d s) = (d \<noteq> None \<and> s \<noteq> None)"
| "isFolded (ExplicitCastExpr sub fl ty) = (sub \<noteq> None)"
| "isFolded _ = False"

text \<open>The recovery of \<^verbatim>\<open>getInfixData\<close>: diagnose, then infinite precedence, left-associative.\<close>

definition unknownBinop :: "TypeChecker \<Rightarrow> Expr \<Rightarrow> error + (InfixData \<times> TypeChecker)" where
  "unknownBinop TC E = Inr (InfixData 255 AssocLeft, diagnose TC (AtExpr E) unknown_binop)"

fun getInfixDataOf ::
  "TypeChecker \<Rightarrow> SourceFile \<Rightarrow> Expr \<Rightarrow> ExprKind \<Rightarrow> error + (InfixData \<times> TypeChecker)" where
  "getInfixDataOf TC SF E (IfExpr c t e) =
     (if isFolded (IfExpr c t e) then Inl AssertionFailure
      else Inr (InfixData 100 AssocRight, TC))"
| "getInfixDataOf TC SF E (AssignExpr d s) =
     (if isFolded (AssignExpr d s) then Inl AssertionFailure
      else Inr (InfixData 90 AssocRight, TC))"
| "getInfixDataOf TC SF E (ExplicitCastExpr sub fl ty) =
     (if isFolded (ExplicitCastExpr sub fl ty) then Inl AssertionFailure
      else Inr (InfixData 95 AssocNone, TC))"
| "getInfixDataOf TC SF E (DeclRefExpr D) =
     (case lookupInfixOperator SF (getName D) E of
        Some info \<Rightarrow> Inr (info, TC)
      | None \<Rightarrow> unknownBinop TC E)"
| "getInfixDataOf TC SF E (OverloadedDeclRefExpr Ds) =
     (case Ds of
        [] \<Rightarrow> Inl OutOfBounds
      | D # _ \<Rightarrow>
          (case lookupInfixOperator SF (getName D) E of
             Some info \<Rightarrow> Inr (info, TC)
           | None \<Rightarrow> unknownBinop TC E))"
| "getInfixDataOf TC SF E _ = unknownBinop TC E"

definition getInfixData ::
  "TypeChecker \<Rightarrow> SourceFile \<Rightarrow> Expr option \<Rightarrow> error + (InfixData \<times> TypeChecker)" where
  "getInfixData TC SF E =
     (case E of
        None \<Rightarrow> Inl NullPointer
      | Some e \<Rightarrow> getInfixDataOf TC SF e (getKind e))"

fun makeBinOpOf ::
  "Expr \<Rightarrow> ExprKind \<Rightarrow> Expr \<Rightarrow> Expr \<Rightarrow> error + Expr option" where
  "makeBinOpOf Op (IfExpr c t e) LHS RHS =
     (if isFolded (IfExpr c t e) then Inl AssertionFailure
      else Inr (Some (Expr (isImplicit Op) (IfExpr (Some LHS) t (Some RHS)))))"
| "makeBinOpOf Op (AssignExpr d s) LHS RHS =
     (if isFolded (AssignExpr d s) then Inl AssertionFailure
      else Inr (Some (Expr (isImplicit Op) (AssignExpr (Some LHS) (Some RHS)))))"
| "makeBinOpOf Op (ExplicitCastExpr sub forceLoc ty) LHS RHS =
     (if isFolded (ExplicitCastExpr sub forceLoc ty) then Inl AssertionFailure
      else if RHS \<noteq> Op then Inl AssertionFailure
      else if isValid forceLoc
        then Inr (Some (Expr False
               (ForceValueExpr (Expr (isImplicit Op) (ExplicitCastExpr (Some LHS) None ty))
                  forceLoc)))
        else Inr (Some (Expr (isImplicit Op) (ExplicitCastExpr (Some LHS) forceLoc ty))))"
| "makeBinOpOf Op _ LHS RHS =
     Inr (Some (Expr (isImplicit Op)
       (BinaryExpr Op (Expr (isImplicit LHS \<and> isImplicit RHS) (TupleExpr [LHS, RHS])))))"

definition makeBinOp ::
  "TypeChecker \<Rightarrow> Expr option \<Rightarrow> Expr option \<Rightarrow> Expr option \<Rightarrow> error + Expr option" where
  "makeBinOp TC Op LHS RHS =
     (case (LHS, RHS) of
        (Some lhs, Some rhs) \<Rightarrow>
          (case Op of
             None \<Rightarrow> Inl NullPointer
           | Some op \<Rightarrow> makeBinOpOf op (getKind op) lhs rhs)
      | _ \<Rightarrow> Inr None)"

text \<open>
  The local \<^verbatim>\<open>struct Op\<close>: \<open>None\<close> is the null operator \<^verbatim>\<open>{nullptr, {}}\<close>, whose
  \<^verbatim>\<open>operator bool\<close> is false.
\<close>

type_synonym Op = "(Expr \<times> InfixData) option"

definition getNextOperator ::
  "TypeChecker \<Rightarrow> SourceFile \<Rightarrow> Expr option list \<Rightarrow> 32 word \<Rightarrow> error + (Op \<times> TypeChecker)" where
  "getNextOperator TC SF S MinPrecedence =
     (case S of
        [] \<Rightarrow> Inl OutOfBounds
      | None # _ \<Rightarrow> Inl NullPointer
      | Some op # _ \<Rightarrow>
          (case getInfixData TC SF (Some op) of
             Inl err \<Rightarrow> Inl err
           | Inr (opInfo, TC') \<Rightarrow>
               if ucast (getPrecedence opInfo) < MinPrecedence then Inr (None, TC')
               else Inr (Some (op, opInfo), TC')))"

definition getOp :: "Op \<Rightarrow> Expr option" where
  "getOp Op1 = (case Op1 of None \<Rightarrow> None | Some (op, infixData) \<Rightarrow> Some op)"

definition isaExplicitCastExpr :: "Expr \<Rightarrow> bool" where
  "isaExplicitCastExpr E = (case getKind E of ExplicitCastExpr sub fl ty \<Rightarrow> True | _ \<Rightarrow> False)"

text \<open>
  \<^verbatim>\<open>foldSequence\<close> and its \<^verbatim>\<open>while\<close> loop. The loop state is the current operator
  \<open>Op1\<close>, the accumulated \<open>LHS\<close>, the prospective \<open>RHS\<close> and the remaining slice \<open>S\<close>,
  which the source passes by reference and which is returned here with the folded tree.
  The floor \<open>MinPrecedence\<close> is an \<^verbatim>\<open>unsigned\<close>; the floor of a recursive call is at most
  256, so the addition does not wrap. A null \<open>Op1\<close> at the loop head fails the assertion
  on its precedence, or is dereferenced by \<^verbatim>\<open>isa<>\<close> where assertions are compiled out:
  the error \<open>NullPointer\<close>. After the loop \<^verbatim>\<open>makeBinOp\<close> receives the operator pointer,
  null or not.
\<close>

function foldSequence ::
  "TypeChecker \<Rightarrow> SourceFile \<Rightarrow> Expr option \<Rightarrow> Expr option list \<Rightarrow> 32 word
     \<Rightarrow> error + (Expr option \<times> Expr option list \<times> TypeChecker)"
and foldLoop ::
  "TypeChecker \<Rightarrow> SourceFile \<Rightarrow> Op \<Rightarrow> Expr option \<Rightarrow> Expr option \<Rightarrow> Expr option list \<Rightarrow> 32 word
     \<Rightarrow> error + (Expr option \<times> Expr option list \<times> TypeChecker)"
where
  "foldSequence TC SF LHS S MinPrecedence =
     (if S = [] \<or> odd (length S) then Inl AssertionFailure
      else
        (case getNextOperator TC SF S MinPrecedence of
           Inl err \<Rightarrow> Inl err
         | Inr (Op1, TC1) \<Rightarrow>
             (case Op1 of
                None \<Rightarrow> Inr (LHS, S, TC1)
              | Some _ \<Rightarrow> foldLoop TC1 SF Op1 LHS (S ! 1) (drop 2 S) MinPrecedence)))"
| "foldLoop TC SF Op1 LHS RHS S MinPrecedence =
     (if S = [] then
        (case makeBinOp TC (getOp Op1) LHS RHS of
           Inl err \<Rightarrow> Inl err
         | Inr Result \<Rightarrow> Inr (Result, S, TC))
      else if odd (length S) then Inl AssertionFailure
      else
        (case Op1 of
           None \<Rightarrow> Inl NullPointer
         | Some (op1, info1) \<Rightarrow>
             if ucast (getPrecedence info1) < MinPrecedence then Inl AssertionFailure
             else if isaExplicitCastExpr op1 then
               (case makeBinOp TC (Some op1) LHS RHS of
                  Inl err \<Rightarrow> Inl err
                | Inr LHS' \<Rightarrow>
                    (case getNextOperator TC SF S MinPrecedence of
                       Inl err \<Rightarrow> Inl err
                     | Inr (Op1', TC') \<Rightarrow>
                         foldLoop TC' SF Op1' LHS' (S ! 1) (drop 2 S) MinPrecedence))
             else
               (case S ! 0 of
                  None \<Rightarrow> Inl NullPointer
                | Some Op2 \<Rightarrow>
               (case getInfixData TC SF (Some Op2) of
                  Inl err \<Rightarrow> Inl err
                | Inr (Op2Info, TC2) \<Rightarrow>
                    if ucast (getPrecedence Op2Info) < MinPrecedence then
                      (case makeBinOp TC2 (Some op1) LHS RHS of
                         Inl err \<Rightarrow> Inl err
                       | Inr Result \<Rightarrow> Inr (Result, S, TC2))
                    else if getPrecedence info1 > getPrecedence Op2Info \<or>
                            (info1 = Op2Info \<and> isLeftAssociative info1) then
                      (case makeBinOp TC2 (Some op1) LHS RHS of
                         Inl err \<Rightarrow> Inl err
                       | Inr LHS' \<Rightarrow>
                           (case getNextOperator TC2 SF S MinPrecedence of
                              Inl err \<Rightarrow> Inl err
                            | Inr (Op1', TC3) \<Rightarrow>
                                (case Op1' of
                                   None \<Rightarrow> Inl AssertionFailure
                                 | Some _ \<Rightarrow>
                                     foldLoop TC3 SF Op1' LHS' (S ! 1) (drop 2 S) MinPrecedence)))
                    else if getPrecedence info1 < getPrecedence Op2Info then
                      (case foldSequence TC2 SF RHS S (ucast (getPrecedence info1) + 1) of
                         Inl err \<Rightarrow> Inl err
                       | Inr (RHS', S', TC3) \<Rightarrow> foldLoop TC3 SF Op1 LHS RHS' S' MinPrecedence)
                    else if info1 = Op2Info \<and> isRightAssociative info1 then
                      (case foldSequence TC2 SF RHS S (ucast (getPrecedence info1)) of
                         Inl err \<Rightarrow> Inl err
                       | Inr (RHS', S', TC3) \<Rightarrow>
                           (case makeBinOp TC3 (Some op1) LHS RHS' of
                              Inl err \<Rightarrow> Inl err
                            | Inr LHS' \<Rightarrow>
                                if S' = [] then Inr (LHS', S', TC3)
                                else foldSequence TC3 SF LHS' S' MinPrecedence))
                    else
                      (let TC3 =
                         (if isNonAssociative info1
                            then diagnose TC2 (AtExpr op1) non_assoc_adjacent
                          else if isNonAssociative Op2Info
                            then diagnose TC2 (AtExpr Op2) non_assoc_adjacent
                          else diagnose TC2 (AtExpr op1) incompatible_assoc)
                       in (case makeBinOp TC3 (Some op1) LHS RHS of
                             Inl err \<Rightarrow> Inl err
                           | Inr LHS' \<Rightarrow> foldSequence TC3 SF LHS' S MinPrecedence))))))"
  by pat_completeness auto

lemma getInfixData_info_indep:
  "getInfixData TC SF E = Inr (info, TC') \<Longrightarrow> \<exists>TC''. getInfixData T SF E = Inr (info, TC'')"
  apply (cases E; simp add: getInfixData_def)
  subgoal for e
    apply (cases "getKind e"; auto simp add: unknownBinop_def split: if_splits option.splits list.splits)
    done
  done

lemma unat_ucast_8_32: "unat (ucast (p :: 8 word) :: 32 word) = unat p"
  by (simp add: unsigned_ucast_eq take_bit_nat_eq_self_iff less_trans [OF unsigned_less [of p, where 'a = nat]])

lemma unat_ucast_succ: "unat (ucast (p :: 8 word) + 1 :: 32 word) = unat p + 1"
proof -
  have "unat p < 256" using unsigned_less [of p, where 'a = nat] by simp
  then have "unat (ucast p :: 32 word) + unat (1 :: 32 word) < 2 ^ LENGTH(32)"
    by (simp add: unat_ucast_8_32)
  then have "unat (ucast p + 1 :: 32 word) = unat (ucast p :: 32 word) + unat (1 :: 32 word)"
    using unat_add_lem [of "ucast p :: 32 word" 1] by blast
  then show ?thesis by (simp add: unat_ucast_8_32)
qed

lemma floor_succ: "(ucast (q :: 8 word) :: 32 word) < ucast (p :: 8 word) + 1 \<longleftrightarrow> q \<le> p"
  by (simp add: word_less_nat_alt word_le_nat_alt unat_ucast_succ unat_ucast_8_32 less_Suc_eq_le)

lemma fold_length_dom:
  "foldSequence_foldLoop_dom (Inl (TC, SF, LHS, S, M)) \<Longrightarrow>
     (\<forall>R S' TC'. foldSequence TC SF LHS S M = Inr (R, S', TC') \<longrightarrow>
        length S' \<le> length S \<and>
        (\<forall>op T. getNextOperator TC SF S M = Inr (Some op, T) \<longrightarrow> length S' < length S))"
  "foldSequence_foldLoop_dom (Inr (TC, SF, Op1, LHS, RHS, S, M)) \<Longrightarrow>
     (\<forall>R S' TC'. foldLoop TC SF Op1 LHS RHS S M = Inr (R, S', TC') \<longrightarrow>
        length S' \<le> length S)"
proof (induct rule: foldSequence_foldLoop.pinduct)
  case (1 TC SF LHS S M)
  show ?case
  proof (intro allI impI)
    fix R S' TC'
    assume eq: "foldSequence TC SF LHS S M = Inr (R, S', TC')"
    from eq "1.hyps"(1) have ne: "\<not> (S = [] \<or> odd (length S))"
      by (auto simp: foldSequence.psimps split: if_splits)
    then have len: "2 \<le> length S"
      by (cases S) (auto simp: Suc_le_eq)
    from eq "1.hyps"(1) ne obtain Op1 TC1 where g: "getNextOperator TC SF S M = Inr (Op1, TC1)"
      by (auto simp: foldSequence.psimps split: sum.splits)
    show "length S' \<le> length S \<and>
        (\<forall>op T. getNextOperator TC SF S M = Inr (Some op, T) \<longrightarrow> length S' < length S)"
    proof (cases Op1)
      case None
      with eq "1.hyps"(1) ne g show ?thesis
        by (auto simp: foldSequence.psimps)
    next
      case (Some a)
      with eq "1.hyps"(1) ne g
      have l: "foldLoop TC1 SF Op1 LHS (S ! 1) (drop 2 S) M = Inr (R, S', TC')"
        by (auto simp: foldSequence.psimps)
      from "1.hyps"(2) [OF ne g refl Some] l have "length S' \<le> length (drop 2 S)"
        by blast
      with len show ?thesis by auto
    qed
  qed
next
  case (2 TC SF Op1 LHS RHS S M)
  note dom = "2.hyps"(1)
  note body = foldLoop.psimps [OF dom]
  show ?case
  proof (intro allI impI)
    fix R S' TC'
    assume eq: "foldLoop TC SF Op1 LHS RHS S M = Inr (R, S', TC')"
    show "length S' \<le> length S"
    proof (cases "S = []")
      case True
      with eq dom show ?thesis
        by (auto simp: foldLoop.psimps split: option.splits sum.splits prod.splits)
    next
      case ne: False
      from eq dom ne have ev: "\<not> odd (length S)"
        by (auto simp: foldLoop.psimps split: if_splits)
      from eq dom ne ev obtain op1 info1 where Op1: "Op1 = Some (op1, info1)"
        by (cases Op1) (auto simp: foldLoop.psimps)
      from eq dom ne ev Op1 have fl: "\<not> ucast (getPrecedence info1) < M"
        by (auto simp: foldLoop.psimps split: if_splits)
      show ?thesis
      proof (cases "isaExplicitCastExpr op1")
        case True
        with eq dom ne ev Op1 fl obtain LHS' Op1' TCa where
          mk: "makeBinOp TC (Some op1) LHS RHS = Inr LHS'" and
          gn: "getNextOperator TC SF S M = Inr (Op1', TCa)" and
          lp: "foldLoop TCa SF Op1' LHS' (S ! 1) (drop 2 S) M = Inr (R, S', TC')"
          by (auto simp: foldLoop.psimps split: sum.splits)
        from "2.hyps"(2) [OF ne ev Op1 refl fl True mk gn refl] lp
        have "length S' \<le> length (drop 2 S)" by blast
        then show ?thesis by simp
      next
        case nc: False
        from eq dom ne ev Op1 fl nc obtain Op2 Op2Info TC2 where
          s0: "S ! 0 = Some Op2" and
          gi: "getInfixData TC SF (Some Op2) = Inr (Op2Info, TC2)"
          by (auto simp: foldLoop.psimps split: sum.splits option.splits)
        note pre = ne ev Op1 refl fl nc s0 gi refl
        show ?thesis
        proof (cases "ucast (getPrecedence Op2Info) < M")
          case True
          with eq dom ne ev Op1 fl nc s0 gi show ?thesis
            by (auto simp: foldLoop.psimps split: sum.splits)
        next
          case nA: False
          show ?thesis
          proof (cases "getPrecedence info1 > getPrecedence Op2Info \<or>
                        (info1 = Op2Info \<and> isLeftAssociative info1)")
            case B: True
            with eq dom ne ev Op1 fl nc s0 gi nA obtain LHS' x2b TC3 where
              mk: "makeBinOp TC2 (Some op1) LHS RHS = Inr LHS'" and
              gn: "getNextOperator TC2 SF S M = Inr (Some x2b, TC3)" and
              lp: "foldLoop TC3 SF (Some x2b) LHS' (S ! 1) (drop 2 S) M = Inr (R, S', TC')"
              by (auto simp: foldLoop.psimps split: sum.splits option.splits)
            from "2.hyps"(3) [OF pre nA B mk gn refl refl] lp
            have "length S' \<le> length (drop 2 S)" by blast
            then show ?thesis by simp
          next
            case nB: False
            show ?thesis
            proof (cases "getPrecedence info1 < getPrecedence Op2Info")
              case C: True
              then have ne12: "info1 \<noteq> Op2Info" and nlt: "\<not> getPrecedence Op2Info < getPrecedence info1"
                by auto
              have "(case foldSequence TC2 SF RHS S (ucast (getPrecedence info1) + 1) of
                         Inl err \<Rightarrow> Inl err
                       | Inr (RHS', S', TC3) \<Rightarrow> foldLoop TC3 SF Op1 LHS RHS' S' M) = Inr (R, S', TC')"
                using eq unfolding body
                by (simp add: ne ev Op1 fl nc s0 gi nA ne12 nlt C)
              then obtain RHS' S1 TC3 where
                fs: "foldSequence TC2 SF RHS S (ucast (getPrecedence info1) + 1) = Inr (RHS', S1, TC3)" and
                lp: "foldLoop TC3 SF Op1 LHS RHS' S1 M = Inr (R, S', TC')"
                by (auto split: sum.splits)
              from "2.hyps"(4) [OF pre nA nB C] fs have "length S1 \<le> length S" by blast
              moreover from "2.hyps"(5) [OF pre nA nB C fs refl refl] lp
              have "length S' \<le> length S1" by blast
              ultimately show ?thesis by simp
            next
              case nC: False
              show ?thesis
              proof (cases "info1 = Op2Info \<and> isRightAssociative info1")
                case D: True
                with nB have nl: "\<not> isLeftAssociative Op2Info" and ra: "isRightAssociative Op2Info"
                  and i12: "info1 = Op2Info"
                  by auto
                have "(case foldSequence TC2 SF RHS S (ucast (getPrecedence Op2Info)) of
                         Inl err \<Rightarrow> Inl err
                       | Inr (RHS', S', TC3) \<Rightarrow>
                           (case makeBinOp TC3 (Some op1) LHS RHS' of
                              Inl err \<Rightarrow> Inl err
                            | Inr LHS' \<Rightarrow>
                                if S' = [] then Inr (LHS', S', TC3)
                                else foldSequence TC3 SF LHS' S' M)) = Inr (R, S', TC')"
                  using eq unfolding body
                  by (simp add: ne ev Op1 fl nc s0 gi nA i12 nl ra)
                then obtain RHS' S1 TC3 LHS' where
                  fs: "foldSequence TC2 SF RHS S (ucast (getPrecedence info1)) = Inr (RHS', S1, TC3)" and
                  mk: "makeBinOp TC3 (Some op1) LHS RHS' = Inr LHS'" and
                  rs: "if S1 = [] then S' = S1
                       else foldSequence TC3 SF LHS' S1 M = Inr (R, S', TC')"
                  by (auto simp: i12 split: sum.splits if_splits)
                from "2.hyps"(6) [OF pre nA nB nC D] fs have l1: "length S1 \<le> length S" by blast
                show ?thesis
                proof (cases "S1 = []")
                  case True
                  with rs show ?thesis by simp
                next
                  case False
                  with rs have "foldSequence TC3 SF LHS' S1 M = Inr (R, S', TC')" by simp
                  with "2.hyps"(7) [OF pre nA nB nC D fs refl refl mk False]
                  have "length S' \<le> length S1" by blast
                  with l1 show ?thesis by simp
                qed
              next
                case nD: False
                define TC3 where "TC3 = (if isNonAssociative info1
                            then diagnose TC2 (AtExpr op1) non_assoc_adjacent
                          else if isNonAssociative Op2Info
                            then diagnose TC2 (AtExpr Op2) non_assoc_adjacent
                          else diagnose TC2 (AtExpr op1) incompatible_assoc)"
                have "(case makeBinOp TC3 (Some op1) LHS RHS of
                             Inl err \<Rightarrow> Inl err
                           | Inr LHS' \<Rightarrow> foldSequence TC3 SF LHS' S M) = Inr (R, S', TC')"
                  using eq unfolding body TC3_def
                  by (simp add: ne ev Op1 fl nc s0 gi nA nB nC nD Let_def)
                then obtain LHS' where
                  mk: "makeBinOp TC3 (Some op1) LHS RHS = Inr LHS'" and
                  fs: "foldSequence TC3 SF LHS' S M = Inr (R, S', TC')"
                  by (auto split: sum.splits)
                from "2.hyps"(8) [OF pre nA nB nC nD TC3_def mk] fs
                show ?thesis by blast
              qed
            qed
          qed
        qed
      qed
    qed
  qed
qed


lemma getNextOperator_valid:
  assumes "S \<noteq> []" and "S ! 0 = Some Op2"
    and "getInfixData TC SF (Some Op2) = Inr (Op2Info, TC2)"
    and "\<not> ucast (getPrecedence Op2Info) < M"
  shows "\<exists>T'. getNextOperator T SF S M = Inr (Some (Op2, Op2Info), T')"
proof -
  from assms(1,2) obtain rest where S: "S = Some Op2 # rest"
    by (cases S) auto
  from getInfixData_info_indep [OF assms(3), of T] obtain T' where
    "getInfixData T SF (Some Op2) = Inr (Op2Info, T')" by blast
  with S assms(4) show ?thesis
    by (simp add: getNextOperator_def)
qed

termination foldSequence
  apply (relation "measure (\<lambda>x. case x of
            Inl (TC, SF, LHS, S, M) \<Rightarrow> 2 * length S
          | Inr (TC, SF, Op1, LHS, RHS, S, M) \<Rightarrow> 2 * length S + 1)")
  apply simp_all
  subgoal for TC SF S
    by (cases S) (auto simp: Suc_le_eq)
  subgoal premises p for TC SF Op1 RHS S M x2 x y x2a b xa ya ba xb yb xc yc
  proof -
    from p have gi: "getInfixData TC SF (Some x2a) = Inr (xa, ya)" by simp
    from p have "\<not> ucast (getPrecedence xa) < (ucast (getPrecedence y) + 1 :: 32 word)"
      by (simp add: floor_succ)
    from getNextOperator_valid [OF p(1) p(7) gi this, of ya]
    obtain T' where "getNextOperator ya SF S (ucast (getPrecedence y) + 1) = Inr (Some (x2a, xa), T')"
      by blast
    moreover from p have "foldSequence ya SF RHS S (ucast (getPrecedence y) + 1) = Inr (xb, xc, yc)"
      by simp
    ultimately show ?thesis
      using fold_length_dom(1) [OF p(16)] by blast
  qed
  subgoal premises p for TC SF Op1 LHS RHS S M x2 x y x2a b ya ba xaa yb xab yc bb
  proof -
    from p have "foldSequence ya SF RHS S (ucast (getPrecedence y)) = Inr (xaa, xab, yc)"
      by simp
    with fold_length_dom(1) [OF p(17)] have "length xab \<le> length S" by blast
    then show ?thesis by simp
  qed
  done

declare foldSequence.simps [simp del] foldLoop.simps [simp del]


text \<open>
  The entry point \<^verbatim>\<open>TypeChecker::foldSequence\<close>: the first element is the initial
  left-hand side, the rest is folded with floor 0 and must be drained.
\<close>

definition TypeChecker_foldSequence ::
  "TypeChecker \<Rightarrow> SourceFile \<Rightarrow> Expr option list \<Rightarrow> error + (Expr option \<times> TypeChecker)" where
  "TypeChecker_foldSequence TC SF Elts =
     (if \<not> length Elts > 1 then Inl AssertionFailure
      else if even (length Elts) then Inl AssertionFailure
      else
        (case foldSequence TC SF (Elts ! 0) (drop 1 Elts) 0 of
           Inl err \<Rightarrow> Inl err
         | Inr (Result, Elts', TC') \<Rightarrow>
             if Elts' \<noteq> [] then Inl AssertionFailure else Inr (Result, TC')))"


section \<open>Reference classification\<close>

record FuncDecl =
  isMutating :: bool

text \<open>
  The attributes of a \<^verbatim>\<open>VarDecl\<close> and of a \<^verbatim>\<open>SubscriptDecl\<close> that the classifier reads.
  Settability of a variable depends on the context of the use.
\<close>

record VarDecl =
  var_isSettable :: "DeclContext \<Rightarrow> bool"
  var_isStatic :: bool
  var_getSetter :: "FuncDecl option"

record SubscriptDecl =
  sub_isSettable :: bool
  sub_getGetter :: "FuncDecl option"
  sub_getSetter :: "FuncDecl option"

text \<open>Sugar is a chain of type aliases; the canonical type has none anywhere.\<close>

fun getDesugaredType :: "Type \<Rightarrow> Type" where
  "getDesugaredType (NameAliasType n T) = getDesugaredType T"
| "getDesugaredType T = T"

fun getCanonicalType :: "Type \<Rightarrow> Type" where
  "getCanonicalType (NominalType n) = NominalType n"
| "getCanonicalType (NameAliasType n T) = getCanonicalType T"
| "getCanonicalType (TupleType Ts) = TupleType (map getCanonicalType Ts)"
| "getCanonicalType (FunctionType A R) = FunctionType (getCanonicalType A) (getCanonicalType R)"
| "getCanonicalType (InOutType T) = InOutType (getCanonicalType T)"
| "getCanonicalType (LValueType T) = LValueType (getCanonicalType T)"
| "getCanonicalType (WeakStorageType T) = WeakStorageType (getCanonicalType T)"
| "getCanonicalType (UnownedStorageType T) = UnownedStorageType (getCanonicalType T)"
| "getCanonicalType (OptionalType T) = OptionalType (getCanonicalType T)"
| "getCanonicalType ErrorType = ErrorType"

definition isLValueType :: "Type \<Rightarrow> bool" where
  "isLValueType T = (case getDesugaredType T of LValueType obj \<Rightarrow> True | _ \<Rightarrow> False)"

text \<open>
  \<^verbatim>\<open>Type::hasReferenceSemantics\<close> belongs to the type system and is a parameter of the
  two classifiers.
\<close>

definition doesVarDeclMemberProduceLValue ::
  "(Type \<Rightarrow> bool) \<Rightarrow> VarDecl \<Rightarrow> Type option \<Rightarrow> DeclContext \<Rightarrow> bool" where
  "doesVarDeclMemberProduceLValue hasReferenceSemantics VD baseType UseDC =
     (if \<not> var_isSettable VD UseDC then False
      else
        (case baseType of
           None \<Rightarrow> True
         | Some base \<Rightarrow>
             if var_isStatic VD then True
             else if hasReferenceSemantics base \<or> isLValueType base then True
             else (case var_getSetter VD of
                     None \<Rightarrow> False
                   | Some setter \<Rightarrow> \<not> isMutating setter)))"

definition doesSubscriptDeclProduceLValue ::
  "(Type \<Rightarrow> bool) \<Rightarrow> SubscriptDecl \<Rightarrow> Type option \<Rightarrow> error + bool" where
  "doesSubscriptDeclProduceLValue hasReferenceSemantics SD baseType =
     (case baseType of
        None \<Rightarrow> Inl AssertionFailure
      | Some base \<Rightarrow>
          if \<not> sub_isSettable SD then Inr False
          else if hasReferenceSemantics base \<or> isLValueType base then Inr True
          else
            (case sub_getGetter SD of
               None \<Rightarrow> Inl NullPointer
             | Some getter \<Rightarrow>
                 if isMutating getter then Inr False
                 else
                   (case sub_getSetter SD of
                      None \<Rightarrow> Inl NullPointer
                    | Some setter \<Rightarrow> Inr (\<not> isMutating setter))))"

section \<open>The type of an rvalue reference\<close>

definition requireOptionalIntrinsics :: "TypeChecker \<Rightarrow> DiagLoc \<Rightarrow> bool \<times> TypeChecker" where
  "requireOptionalIntrinsics TC loc =
     (if hasOptionalIntrinsics TC then (False, TC)
      else (True, diagnose TC loc optional_intrinsics_not_found))"

text \<open>\<^verbatim>\<open>getReferenceStorageReferent\<close>: the referent of a storage type, any other type itself.\<close>

definition getReferenceStorageReferent :: "Type \<Rightarrow> Type" where
  "getReferenceStorageReferent T =
     (case getDesugaredType T of
        WeakStorageType R \<Rightarrow> R
      | UnownedStorageType R \<Rightarrow> R
      | _ \<Rightarrow> T)"

text \<open>
  \<^verbatim>\<open>TypeChecker::getOptionalType\<close> is defined in another file; it is a parameter here. It
  returns the optional type of its argument, or null after its own diagnostics. The
  declaration is taken as validated, so \<^verbatim>\<open>validateDecl\<close> has nothing left to do.
\<close>

definition getTypeOfRValue ::
  "(TypeChecker \<Rightarrow> DiagLoc \<Rightarrow> Type \<Rightarrow> Type option \<times> TypeChecker)
     \<Rightarrow> TypeChecker \<Rightarrow> ValueDecl \<Rightarrow> bool \<Rightarrow> error + (Type \<times> TypeChecker)" where
  "getTypeOfRValue getOptionalType TC val wantInterfaceType =
     (let type = (if wantInterfaceType then getInterfaceType val else getType val);
          canType = getCanonicalType type
      in case canType of
           InOutType obj \<Rightarrow> Inr (obj, TC)
         | LValueType obj \<Rightarrow> Inr (obj, TC)
         | WeakStorageType _ \<Rightarrow>
             (case getDesugaredType type of
                WeakStorageType refTy \<Rightarrow>
                  (case getOptionalType TC (AtDecl val) refTy of
                     (None, TC1) \<Rightarrow> Inr (refTy, TC1)
                   | (Some optTy, TC1) \<Rightarrow>
                       Inr (optTy, snd (requireOptionalIntrinsics TC1 (AtDecl val))))
              | _ \<Rightarrow> Inl AssertionFailure)
         | UnownedStorageType _ \<Rightarrow> Inr (getReferenceStorageReferent type, TC)
         | _ \<Rightarrow> Inr (type, TC))"

section \<open>Capture analysis\<close>





text \<open>
  Modelled from the spec: the \<^verbatim>\<open>ASTWalker\<close> is declared outside this file. The spec gives
  a depth-first pre-order traversal that visits the children of a node unless the visitor
  says not to.
\<close>

definition option_list :: "'a option \<Rightarrow> 'a list" where
  "option_list x = (case x of None \<Rightarrow> [] | Some y \<Rightarrow> [y])"








section \<open>Notions used to state the properties\<close>

text \<open>
  The infix attributes that \<^verbatim>\<open>getInfixData\<close> computes for an operator, whatever the
  diagnostics recorded so far; \<open>None\<close> when it fails.
\<close>

definition infixDataOf :: "SourceFile \<Rightarrow> Expr \<Rightarrow> InfixData option" where
  "infixDataOf SF E =
     (case getInfixData \<lparr>Diags = [], hasOptionalIntrinsics = False\<rparr> SF (Some E) of
        Inl err \<Rightarrow> None
      | Inr (info, TC') \<Rightarrow> Some info)"

text \<open>
  A sequence is its first operand followed by (operator, operand) pairs.
\<close>

fun interleave :: "(Expr \<times> Expr) list \<Rightarrow> Expr option list" where
  "interleave [] = []"
| "interleave ((Op, E) # rest) = Some Op # Some E # interleave rest"

text \<open>
  The node a folded cast becomes: the cast with its subject attached, wrapped in a
  force-unwrap node with the forced marker cleared when the cast was forced, so that
  \<open>x as! T\<close> becomes \<open>(x as T)!\<close>.
\<close>

definition foldedCast :: "Expr \<Rightarrow> Expr \<Rightarrow> Expr" where
  "foldedCast As X =
     (case getKind As of
        ExplicitCastExpr sub forceLoc ty \<Rightarrow>
          if isValid forceLoc
            then Expr False
                   (ForceValueExpr (Expr (isImplicit As) (ExplicitCastExpr (Some X) None ty))
                      forceLoc)
          else Expr (isImplicit As) (ExplicitCastExpr (Some X) forceLoc ty)
      | _ \<Rightarrow> As)"

text \<open>
  The operator node of the specification, written from its words and not from
  \<^verbatim>\<open>makeBinOp\<close>: folding a ternary attaches the left operand as its condition and the
  right operand as its else-expression, the then-expression staying as the parser left it;
  folding an assignment attaches the left operand as destination and the right operand as
  source; folding a cast attaches the left operand as subject, the right operand being the
  type that the cast carries already; a general binary operator becomes a call of the
  operator reference on the two-element tuple of the left and the right operand. On the
  flags for implicit nodes the specification is silent: the tuple is implicit when both
  operands are, and the node is implicit when the operator is.
\<close>

definition foldedNode :: "Expr \<Rightarrow> Expr \<Rightarrow> Expr \<Rightarrow> Expr" where
  "foldedNode Op L R =
     (case getKind Op of
        IfExpr c t e \<Rightarrow> Expr (isImplicit Op) (IfExpr (Some L) t (Some R))
      | AssignExpr d s \<Rightarrow> Expr (isImplicit Op) (AssignExpr (Some L) (Some R))
      | ExplicitCastExpr sub forceLoc ty \<Rightarrow> foldedCast Op L
      | _ \<Rightarrow> Expr (isImplicit Op)
               (BinaryExpr Op (Expr (isImplicit L \<and> isImplicit R) (TupleExpr [L, R]))))"

text \<open>
  The right-leaning chain of the specification: the first operator is the root, its left
  operand is the first operand of the sequence and its right operand is the chain of
  everything to its right.
\<close>

fun rightTree :: "Expr \<Rightarrow> (Expr \<times> Expr) list \<Rightarrow> Expr" where
  "rightTree E0 [] = E0"
| "rightTree E0 ((Op, E1) # rest) = foldedNode Op E0 (rightTree E1 rest)"

text \<open>
  The left-leaning tree: the operators are folded from left to right, each node taking
  the tree built so far as its left operand and the operand that follows the operator as
  its right operand, so that the last operator is the root.
\<close>

fun leftTree :: "Expr \<Rightarrow> (Expr \<times> Expr) list \<Rightarrow> Expr" where
  "leftTree L [] = L"
| "leftTree L ((Op, E) # rest) = leftTree (foldedNode Op L E) rest"

text \<open>
  A tree over a sequence, whatever its shape: an operand alone, or the node of one of the
  operators whose left operand is a tree over what precedes the operator and whose right
  operand is a tree over what follows it; the node of a cast has a tree over what precedes
  the cast as subject, and only the type operand of the cast follows it. Every operand and
  every operator of the sequence occurs in the tree once, in the order of the sequence.
\<close>

inductive isFoldOf :: "Expr \<Rightarrow> Expr \<Rightarrow> (Expr \<times> Expr) list \<Rightarrow> bool" where
  operand: "isFoldOf E0 E0 []"
| node: "\<not> isaExplicitCastExpr Op \<Longrightarrow> isFoldOf l E0 before \<Longrightarrow> isFoldOf r E after \<Longrightarrow>
         isFoldOf (foldedNode Op l r) E0 (before @ (Op, E) # after)"
| cast: "isaExplicitCastExpr Op \<Longrightarrow> isFoldOf l E0 before \<Longrightarrow>
         isFoldOf (foldedNode Op l E) E0 (before @ [(Op, E)])"

text \<open>
  The operators of the pairs all have infix attributes, with strictly decreasing
  precedence from left to right.
\<close>

fun strictlyDecreasing :: "SourceFile \<Rightarrow> (Expr \<times> Expr) list \<Rightarrow> bool" where
  "strictlyDecreasing SF [] = True"
| "strictlyDecreasing SF [(Op, E)] = (infixDataOf SF Op \<noteq> None)"
| "strictlyDecreasing SF ((Op1, E1) # (Op2, E2) # rest) =
     (case (infixDataOf SF Op1, infixDataOf SF Op2) of
        (Some info1, Some info2) \<Rightarrow>
          getPrecedence info1 > getPrecedence info2 \<and> strictlyDecreasing SF ((Op2, E2) # rest)
      | _ \<Rightarrow> False)"

text \<open>
  A sequence as the parser builds it, which the source asserts: every operator has infix
  attributes (a pseudo-operator is not folded yet, an overloaded reference has a
  candidate), and the operand that follows a cast is the cast node itself, which carries
  the type.
\<close>

definition wellFormed :: "SourceFile \<Rightarrow> (Expr \<times> Expr) list \<Rightarrow> bool" where
  "wellFormed SF pairs =
     (\<forall>(Op, E) \<in> set pairs.
        infixDataOf SF Op \<noteq> None \<and> (isaExplicitCastExpr Op \<longrightarrow> E = Op))"

text \<open>
  No cast of the operator list is followed by an operator of precedence below that of the
  cast, 95.
\<close>

fun noLowerAfterCast :: "SourceFile \<Rightarrow> Expr list \<Rightarrow> bool" where
  "noLowerAfterCast SF (Op1 # Op2 # rest) =
     ((isaExplicitCastExpr Op1 \<longrightarrow>
        (case infixDataOf SF Op2 of None \<Rightarrow> False | Some info2 \<Rightarrow> 95 \<le> getPrecedence info2)) \<and>
      noLowerAfterCast SF (Op2 # rest))"
| "noLowerAfterCast SF [Op1] = True"
| "noLowerAfterCast SF [] = True"

text \<open>
  What a fold with floor \<open>M\<close> leaves unconsumed: nothing, or a slice whose first
  operator is below the floor.
\<close>

fun floorStops :: "SourceFile \<Rightarrow> Expr option list \<Rightarrow> 32 word \<Rightarrow> bool" where
  "floorStops SF [] M = True"
| "floorStops SF (Some Op # rest) M =
     (case infixDataOf SF Op of
        None \<Rightarrow> False
      | Some info \<Rightarrow> ucast (getPrecedence info) < M)"
| "floorStops SF (None # rest) M = False"

text \<open>
  The diagnostic of two adjacent operators of equal precedence whose associativities do
  not allow folding: non-associative adjacency when either is non-associative, reported at
  the first non-associative one, otherwise incompatible associativity at the first.
\<close>

definition conflictDiag :: "Expr \<Rightarrow> InfixData \<Rightarrow> Expr \<Rightarrow> InfixData \<Rightarrow> DiagLoc \<times> Diag" where
  "conflictDiag Op1 info1 Op2 info2 =
     (if isNonAssociative info1 then (AtExpr Op1, non_assoc_adjacent)
      else if isNonAssociative info2 then (AtExpr Op2, non_assoc_adjacent)
      else (AtExpr Op1, incompatible_assoc))"

text \<open>
  The diagnostic that the adjacency of two operators calls for, if any: the first is not
  a cast, the precedences are equal, and the associativities differ or there is none.
\<close>

definition conflictOf :: "SourceFile \<Rightarrow> Expr \<Rightarrow> Expr \<Rightarrow> (DiagLoc \<times> Diag) option" where
  "conflictOf SF Op1 Op2 =
     (case (infixDataOf SF Op1, infixDataOf SF Op2) of
        (Some info1, Some info2) \<Rightarrow>
          if \<not> isaExplicitCastExpr Op1 \<and> getPrecedence info1 = getPrecedence info2 \<and>
             (getAssociativity info1 \<noteq> getAssociativity info2 \<or> isNonAssociative info1)
          then Some (conflictDiag Op1 info1 Op2 info2)
          else None
      | _ \<Rightarrow> None)"

text \<open>
  The diagnostics of all such adjacencies of an operator list, in the order of the list,
  one for each adjacency.
\<close>

fun adjacentConflicts :: "SourceFile \<Rightarrow> Expr list \<Rightarrow> (DiagLoc \<times> Diag) list" where
  "adjacentConflicts SF (Op1 # Op2 # rest) =
     option_list (conflictOf SF Op1 Op2) @ adjacentConflicts SF (Op2 # rest)"
| "adjacentConflicts SF [Op1] = []"
| "adjacentConflicts SF [] = []"

text \<open>
  The operators that the fold compares: an operator and the nearest operator before it
  that does not bind tighter. The two are adjacent in the sequence, or the operators
  between them all bind tighter than the second and are folded before the two meet.
  \<open>levelConflicts\<close> lists the diagnostics that these pairs call for, in the order of
  the sequence, one for each pair that is in conflict; the first argument of
  \<open>levelConflictsFrom\<close> holds the operators passed so far, the nearest first.
\<close>

definition bindsNoTighter :: "SourceFile \<Rightarrow> Expr \<Rightarrow> Expr \<Rightarrow> bool" where
  "bindsNoTighter SF Op2 Op1 =
     (case (infixDataOf SF Op1, infixDataOf SF Op2) of
        (Some info1, Some info2) \<Rightarrow> getPrecedence info1 \<le> getPrecedence info2
      | _ \<Rightarrow> False)"

fun levelConflictsFrom ::
  "SourceFile \<Rightarrow> Expr list \<Rightarrow> Expr list \<Rightarrow> (DiagLoc \<times> Diag) list" where
  "levelConflictsFrom SF seen [] = []"
| "levelConflictsFrom SF seen (Op2 # rest) =
     (case List.find (bindsNoTighter SF Op2) seen of
        None \<Rightarrow> []
      | Some Op1 \<Rightarrow> option_list (conflictOf SF Op1 Op2)) @
     levelConflictsFrom SF (Op2 # seen) rest"

definition levelConflicts :: "SourceFile \<Rightarrow> Expr list \<Rightarrow> (DiagLoc \<times> Diag) list" where
  "levelConflicts SF ops = levelConflictsFrom SF [] ops"

text \<open>
  The diagnostics of the two kinds that report a conflict of associativity.
\<close>

definition isConflictDiag :: "DiagLoc \<times> Diag \<Rightarrow> bool" where
  "isConflictDiag d = (snd d = non_assoc_adjacent \<or> snd d = incompatible_assoc)"

text \<open>
  An operator list in which every two adjacent operators are such an adjacency.
\<close>

fun conflictChain :: "SourceFile \<Rightarrow> Expr list \<Rightarrow> bool" where
  "conflictChain SF (Op1 # Op2 # rest) =
     (conflictOf SF Op1 Op2 \<noteq> None \<and> conflictChain SF (Op2 # rest))"
| "conflictChain SF [Op1] = True"
| "conflictChain SF [] = True"







section \<open>Concrete inputs\<close>

text \<open>
  A type checker with no diagnostics yet, a source file that declares \<open>*\<close> (150, left),
  \<open>+\<close> (140, left), \<open><\<close> (130, none) and \<open>**\<close> (160, right), and the nodes
  the parser builds for operands, operator references, assignment and casts.
\<close>

definition exTC :: TypeChecker where
  "exTC = \<lparr>Diags = [], hasOptionalIntrinsics = True\<rparr>"

definition exSF :: SourceFile where
  "exSF = \<lparr>lookupInfixOperator = (\<lambda>name E.
     if name = ''*'' then Some (InfixData 150 AssocLeft)
     else if name = ''+'' then Some (InfixData 140 AssocLeft)
     else if name = ''<'' then Some (InfixData 130 AssocNone)
     else if name = ''**'' then Some (InfixData 160 AssocRight)
     else None)\<rparr>"

definition exModule :: DeclContext where
  "exModule = DeclContext ''main'' False None"

definition exOperand :: "Identifier \<Rightarrow> Expr" where
  "exOperand n = Expr False (OtherExpr n [])"

definition exOperator :: "Identifier \<Rightarrow> Expr" where
  "exOperator n = Expr False (DeclRefExpr
     \<lparr>getName = n, getDeclContext = exModule, isVarDecl = False,
      getType = ErrorType, getInterfaceType = ErrorType\<rparr>)"

definition exAssign :: Expr where
  "exAssign = Expr False (AssignExpr None None)"

definition exCast :: "Identifier \<Rightarrow> Expr" where
  "exCast T = Expr False (ExplicitCastExpr None None (NominalType T))"

definition exForcedCast :: "Identifier \<Rightarrow> Expr" where
  "exForcedCast T = Expr False (ExplicitCastExpr None (Some 7) (NominalType T))"

lemmas ex_defs = exTC_def exSF_def exModule_def exOperand_def exOperator_def exAssign_def
  exCast_def exForcedCast_def

lemmas fold_eval = TypeChecker_foldSequence_def foldSequence.simps foldLoop.simps
  getNextOperator_def getInfixData_def makeBinOp_def isaExplicitCastExpr_def unknownBinop_def
  diagnose_def isLeftAssociative_def isRightAssociative_def isNonAssociative_def isValid_def
  getOp_def

text \<open>
  A struct type without reference semantics, a static variable with a mutating setter, a
  computed variable with a non-mutating setter, one with a mutating setter and a subscript
  with a mutating setter.
\<close>

definition exStruct :: Type where
  "exStruct = NominalType ''Point''"

definition exValueSemantics :: "Type \<Rightarrow> bool" where
  "exValueSemantics T = False"

definition exStaticVar :: VarDecl where
  "exStaticVar = \<lparr>var_isSettable = (\<lambda>UseDC. True), var_isStatic = True,
                  var_getSetter = Some \<lparr>isMutating = True\<rparr>\<rparr>"

definition exComputedVar :: VarDecl where
  "exComputedVar = \<lparr>var_isSettable = (\<lambda>UseDC. True), var_isStatic = False,
                    var_getSetter = Some \<lparr>isMutating = False\<rparr>\<rparr>"

definition exMutatingVar :: VarDecl where
  "exMutatingVar = \<lparr>var_isSettable = (\<lambda>UseDC. True), var_isStatic = False,
                    var_getSetter = Some \<lparr>isMutating = True\<rparr>\<rparr>"

definition exSubscript :: SubscriptDecl where
  "exSubscript = \<lparr>sub_isSettable = True, sub_getGetter = Some \<lparr>isMutating = False\<rparr>,
                  sub_getSetter = Some \<lparr>isMutating = True\<rparr>\<rparr>"

text \<open>
  A weak variable, and the two behaviours of \<^verbatim>\<open>getOptionalType\<close>: the optional type
  is available, or it is not.
\<close>

definition exWeakDecl :: ValueDecl where
  "exWeakDecl = \<lparr>getName = ''delegate'', getDeclContext = exModule, isVarDecl = True,
     getType = NameAliasType ''WeakDelegate'' (WeakStorageType (NominalType ''Delegate'')),
     getInterfaceType = WeakStorageType (NominalType ''Delegate'')\<rparr>"

definition exGetOptionalType :: "TypeChecker \<Rightarrow> DiagLoc \<Rightarrow> Type \<Rightarrow> Type option \<times> TypeChecker" where
  "exGetOptionalType TC loc T = (Some (OptionalType T), TC)"

definition exNoOptionalType :: "TypeChecker \<Rightarrow> DiagLoc \<Rightarrow> Type \<Rightarrow> Type option \<times> TypeChecker" where
  "exNoOptionalType TC loc T = (None, TC)"














lemmas chain_eval = infixDataOf_def getInfixData_def unknownBinop_def makeBinOp_def
  isRightAssociative_def isLeftAssociative_def isNonAssociative_def isaExplicitCastExpr_def
  isValid_def diagnose_def foldedCast_def foldedNode_def

lemmas conflict_eval = wellFormed_def conflictOf_def conflictDiag_def option_list_def
  levelConflicts_def bindsNoTighter_def isConflictDiag_def



section \<open>The branches of the fold loop\<close>

lemma foldLoop_Nil:
  "foldLoop TC SF (Some (op1, info1)) LHS RHS [] M =
     (case makeBinOp TC (Some op1) LHS RHS of
        Inl err \<Rightarrow> Inl err
      | Inr Result \<Rightarrow> Inr (Result, [], TC))"
  by (simp add: foldLoop.simps getOp_def)

lemma foldLoop_null_operator:
  "S \<noteq> [] \<Longrightarrow> even (length S) \<Longrightarrow> foldLoop TC SF None LHS RHS S M = Inl NullPointer"
  by (simp add: foldLoop.simps)

lemma foldLoop_cast:
  assumes "S \<noteq> []" "even (length S)" "\<not> ucast (getPrecedence info1) < M"
    and "isaExplicitCastExpr op1"
  shows "foldLoop TC SF (Some (op1, info1)) LHS RHS S M =
     (case makeBinOp TC (Some op1) LHS RHS of
        Inl err \<Rightarrow> Inl err
      | Inr LHS' \<Rightarrow>
          (case getNextOperator TC SF S M of
             Inl err \<Rightarrow> Inl err
           | Inr (Op1', TC') \<Rightarrow> foldLoop TC' SF Op1' LHS' (S ! 1) (drop 2 S) M))"
  by (simp add: foldLoop.simps [of TC SF "Some (op1, info1)" LHS RHS S M] assms)

lemma foldLoop_break:
  assumes "S \<noteq> []" "even (length S)" "\<not> ucast (getPrecedence info1) < M"
    and "\<not> isaExplicitCastExpr op1"
    and "S ! 0 = Some Op2" "getInfixData TC SF (Some Op2) = Inr (Op2Info, TC2)"
    and "ucast (getPrecedence Op2Info) < M"
  shows "foldLoop TC SF (Some (op1, info1)) LHS RHS S M =
     (case makeBinOp TC2 (Some op1) LHS RHS of
        Inl err \<Rightarrow> Inl err
      | Inr Result \<Rightarrow> Inr (Result, S, TC2))"
  by (simp add: foldLoop.simps [of TC SF "Some (op1, info1)" LHS RHS S M] assms)

lemma foldLoop_immediate:
  assumes "S \<noteq> []" "even (length S)" "\<not> ucast (getPrecedence info1) < M"
    and "\<not> isaExplicitCastExpr op1"
    and "S ! 0 = Some Op2" "getInfixData TC SF (Some Op2) = Inr (Op2Info, TC2)"
    and "\<not> ucast (getPrecedence Op2Info) < M"
    and "getPrecedence info1 > getPrecedence Op2Info \<or>
         (info1 = Op2Info \<and> isLeftAssociative info1)"
  shows "foldLoop TC SF (Some (op1, info1)) LHS RHS S M =
     (case makeBinOp TC2 (Some op1) LHS RHS of
        Inl err \<Rightarrow> Inl err
      | Inr LHS' \<Rightarrow>
          (case getNextOperator TC2 SF S M of
             Inl err \<Rightarrow> Inl err
           | Inr (Op1', TC3) \<Rightarrow>
               (case Op1' of
                  None \<Rightarrow> Inl AssertionFailure
                | Some _ \<Rightarrow> foldLoop TC3 SF Op1' LHS' (S ! 1) (drop 2 S) M)))"
  by (simp add: foldLoop.simps [of TC SF "Some (op1, info1)" LHS RHS S M] assms)

lemma foldLoop_lower:
  assumes "S \<noteq> []" "even (length S)" "\<not> ucast (getPrecedence info1) < M"
    and "\<not> isaExplicitCastExpr op1"
    and "S ! 0 = Some Op2" "getInfixData TC SF (Some Op2) = Inr (Op2Info, TC2)"
    and "\<not> ucast (getPrecedence Op2Info) < M"
    and "getPrecedence info1 < getPrecedence Op2Info"
  shows "foldLoop TC SF (Some (op1, info1)) LHS RHS S M =
     (case foldSequence TC2 SF RHS S (ucast (getPrecedence info1) + 1) of
        Inl err \<Rightarrow> Inl err
      | Inr (RHS', S', TC3) \<Rightarrow> foldLoop TC3 SF (Some (op1, info1)) LHS RHS' S' M)"
proof -
  from assms(8) have "info1 \<noteq> Op2Info" "\<not> getPrecedence Op2Info < getPrecedence info1"
    by auto
  then show ?thesis
    by (simp add: foldLoop.simps [of TC SF "Some (op1, info1)" LHS RHS S M] assms)
qed

lemma foldLoop_right:
  assumes "S \<noteq> []" "even (length S)" "\<not> ucast (getPrecedence info1) < M"
    and "\<not> isaExplicitCastExpr op1"
    and "S ! 0 = Some Op2" "getInfixData TC SF (Some Op2) = Inr (info1, TC2)"
    and "isRightAssociative info1"
  shows "foldLoop TC SF (Some (op1, info1)) LHS RHS S M =
     (case foldSequence TC2 SF RHS S (ucast (getPrecedence info1)) of
        Inl err \<Rightarrow> Inl err
      | Inr (RHS', S', TC3) \<Rightarrow>
          (case makeBinOp TC3 (Some op1) LHS RHS' of
             Inl err \<Rightarrow> Inl err
           | Inr LHS' \<Rightarrow>
               if S' = [] then Inr (LHS', S', TC3)
               else foldSequence TC3 SF LHS' S' M))"
proof -
  from assms(7) have "\<not> isLeftAssociative info1"
    by (simp add: isLeftAssociative_def isRightAssociative_def)
  then show ?thesis
    by (simp add: foldLoop.simps [of TC SF "Some (op1, info1)" LHS RHS S M] assms)
qed

lemma foldLoop_conflict:
  assumes "S \<noteq> []" "even (length S)" "\<not> ucast (getPrecedence info1) < M"
    and "\<not> isaExplicitCastExpr op1"
    and "S ! 0 = Some Op2" "getInfixData TC SF (Some Op2) = Inr (Op2Info, TC2)"
    and "getPrecedence Op2Info = getPrecedence info1"
    and "getAssociativity info1 \<noteq> getAssociativity Op2Info \<or> isNonAssociative info1"
  shows "foldLoop TC SF (Some (op1, info1)) LHS RHS S M =
     (let TC3 =
        (if isNonAssociative info1 then diagnose TC2 (AtExpr op1) non_assoc_adjacent
         else if isNonAssociative Op2Info then diagnose TC2 (AtExpr Op2) non_assoc_adjacent
         else diagnose TC2 (AtExpr op1) incompatible_assoc)
      in (case makeBinOp TC3 (Some op1) LHS RHS of
            Inl err \<Rightarrow> Inl err
          | Inr LHS' \<Rightarrow> foldSequence TC3 SF LHS' S M))"
proof -
  from assms(7,8) have c: "\<not> (getPrecedence Op2Info < getPrecedence info1 \<or>
      (info1 = Op2Info \<and> isLeftAssociative info1))"
    "\<not> (info1 = Op2Info \<and> isRightAssociative info1)"
    "\<not> getPrecedence info1 < getPrecedence Op2Info"
    by (auto simp: isLeftAssociative_def isRightAssociative_def isNonAssociative_def)
  have fl: "\<not> ucast (getPrecedence Op2Info) < M"
    unfolding assms(7) by (rule assms(3))
  show ?thesis
    by (simp add: foldLoop.simps [of TC SF "Some (op1, info1)" LHS RHS S M] assms(1-6) c fl)
qed

text \<open>
  The cast branch does not look at the operator it fetches: when that operator is below
  the floor, the loop goes on with the null operator and fails.
\<close>

lemma foldLoop_cast_below_floor:
  assumes "isaExplicitCastExpr op1" and "\<not> ucast (getPrecedence info1) < M"
    and "even (length rest)"
    and "makeBinOp TC (Some op1) LHS RHS = Inr (Some L)"
    and "getInfixData TC SF (Some Op2) = Inr (info2, TC')"
    and "ucast (getPrecedence info2) < M"
  shows "foldLoop TC SF (Some (op1, info1)) LHS RHS (Some Op2 # Some E # rest) M =
    Inl NullPointer"
proof -
  have "foldLoop TC SF (Some (op1, info1)) LHS RHS (Some Op2 # Some E # rest) M =
      foldLoop TC' SF None (Some L) (Some E) rest M"
    by (subst foldLoop_cast [OF _ _ assms(2) assms(1)])
       (simp_all add: assms(3-6) getNextOperator_def)
  also have "\<dots> = Inl NullPointer"
  proof (cases "rest = []")
    case True
    then show ?thesis
      by (simp add: foldLoop.simps getOp_def makeBinOp_def)
  next
    case False
    then show ?thesis
      by (rule foldLoop_null_operator [OF _ assms(3)])
  qed
  finally show ?thesis .
qed

section \<open>Operator attributes and node construction\<close>

lemma getInfixData_cases:
  "getInfixData TC SF (Some E) = Inr (info, TC') \<Longrightarrow>
     TC' = TC \<or> (info = InfixData 255 AssocLeft \<and> TC' = diagnose TC (AtExpr E) unknown_binop)"
  by (cases "getKind E")
     (auto simp: getInfixData_def unknownBinop_def split: if_splits option.splits list.splits)

lemma getInfixData_infixDataOf:
  "getInfixData TC SF (Some E) = Inr (info, TC') \<Longrightarrow> infixDataOf SF E = Some info"
proof -
  assume "getInfixData TC SF (Some E) = Inr (info, TC')"
  from getInfixData_info_indep [OF this, of "\<lparr>Diags = [], hasOptionalIntrinsics = False\<rparr>"]
  show ?thesis by (auto simp: infixDataOf_def)
qed

lemma infixDataOf_getInfixData:
  assumes "infixDataOf SF E = Some info"
  shows "\<exists>TC'. getInfixData TC SF (Some E) = Inr (info, TC')"
proof -
  from assms obtain T where
    "getInfixData \<lparr>Diags = [], hasOptionalIntrinsics = False\<rparr> SF (Some E) = Inr (info, T)"
    by (auto simp: infixDataOf_def split: sum.splits)
  from getInfixData_info_indep [OF this] show ?thesis .
qed

lemma infixDataOf_quiet:
  assumes "infixDataOf SF E = Some info" and "getPrecedence info \<noteq> 255"
  shows "getInfixData TC SF (Some E) = Inr (info, TC)"
proof -
  from infixDataOf_getInfixData [OF assms(1)] obtain TC' where
    g: "getInfixData TC SF (Some E) = Inr (info, TC')" by blast
  from getInfixData_cases [OF g] assms(2) have "TC' = TC" by auto
  with g show ?thesis by simp
qed

lemma infixDataOf_right_quiet:
  assumes "infixDataOf SF E = Some info" and "isRightAssociative info"
  shows "getInfixData TC SF (Some E) = Inr (info, TC)"
proof -
  from infixDataOf_getInfixData [OF assms(1)] obtain TC' where
    g: "getInfixData TC SF (Some E) = Inr (info, TC')" by blast
  from getInfixData_cases [OF g] assms(2) have "TC' = TC"
    by (auto simp: isRightAssociative_def)
  with g show ?thesis by simp
qed

lemma infixDataOf_cast:
  assumes "infixDataOf SF E = Some info"
  shows "isaExplicitCastExpr E \<longleftrightarrow>
           (\<exists>forceLoc ty. getKind E = ExplicitCastExpr None forceLoc ty)"
    and "isaExplicitCastExpr E \<Longrightarrow> info = InfixData 95 AssocNone"
  using assms
  by (cases "getKind E"; auto simp: infixDataOf_def getInfixData_def isaExplicitCastExpr_def
        split: if_splits sum.splits)+

lemma getNextOperator_Cons:
  "getNextOperator TC SF (Some Op # rest) M =
     (case getInfixData TC SF (Some Op) of
        Inl err \<Rightarrow> Inl err
      | Inr (opInfo, TC') \<Rightarrow>
          if ucast (getPrecedence opInfo) < M then Inr (None, TC')
          else Inr (Some (Op, opInfo), TC'))"
  by (simp add: getNextOperator_def)

lemma prec_le_255: "(p :: 8 word) \<le> 255"
proof -
  have "(255 :: 8 word) = - 1" by simp
  then show ?thesis by (simp only: word_n1_ge)
qed

lemma prec_lt_not_255: "(q :: 8 word) < p \<Longrightarrow> q \<noteq> 255"
  using prec_le_255 [of p] by auto

lemma even_length_interleave: "even (length (interleave pairs))"
  by (induction pairs) auto

lemma right_assoc_not_cast:
  assumes "infixDataOf SF Op = Some info" and "isRightAssociative info"
  shows "\<not> isaExplicitCastExpr Op"
  using infixDataOf_cast(2) [OF assms(1)] assms(2)
  by (auto simp: isRightAssociative_def)

lemma foldSequence_Cons:
  "even (length rest) \<Longrightarrow>
   foldSequence TC SF LHS (Some Op # E # rest) M =
     (case getInfixData TC SF (Some Op) of
        Inl err \<Rightarrow> Inl err
      | Inr (info, TC1) \<Rightarrow>
          if ucast (getPrecedence info) < M then Inr (LHS, Some Op # E # rest, TC1)
          else foldLoop TC1 SF (Some (Op, info)) LHS E rest M)"
  by (simp add: foldSequence.simps getNextOperator_Cons split: sum.splits)

lemma top_level_fold:
  assumes "foldSequence TC SF (Some E0) (interleave pairs) 0 = Inr (R, [], TC')"
    and "pairs \<noteq> []"
  shows "TypeChecker_foldSequence TC SF (Some E0 # interleave pairs) = Inr (R, TC')"
  using assms even_length_interleave [of pairs]
  by (cases pairs) (auto simp: TypeChecker_foldSequence_def)

lemma makeBinOp_foldedNode:
  assumes "infixDataOf SF Op = Some info"
  shows "makeBinOp TC (Some Op) (Some L) (Some R) =
     (if isaExplicitCastExpr Op \<and> R \<noteq> Op then Inl AssertionFailure
      else Inr (Some (foldedNode Op L R)))"
  using assms
  by (cases "getKind Op")
     (auto simp: makeBinOp_def infixDataOf_def getInfixData_def isaExplicitCastExpr_def
        foldedNode_def foldedCast_def split: if_splits)

lemma makeBinOp_wellFormed:
  assumes "infixDataOf SF Op = Some info" and "isaExplicitCastExpr Op \<longrightarrow> R = Op"
  shows "makeBinOp TC (Some Op) (Some L) (Some R) = Inr (Some (foldedNode Op L R))"
  using assms(2) by (auto simp: makeBinOp_foldedNode [OF assms(1)])

lemma wellFormed_Cons:
  "wellFormed SF ((Op, E) # rest) \<longleftrightarrow>
     infixDataOf SF Op \<noteq> None \<and> (isaExplicitCastExpr Op \<longrightarrow> E = Op) \<and> wellFormed SF rest"
  by (auto simp: wellFormed_def)

lemma wellFormed_suffix: "wellFormed SF (xs @ ys) \<Longrightarrow> wellFormed SF ys"
  by (auto simp: wellFormed_def)

lemma ucast_mono_8_32: "(ucast (q :: 8 word) :: 32 word) < ucast (p :: 8 word) \<longleftrightarrow> q < p"
  by (simp add: word_less_nat_alt unat_ucast_8_32)

lemma foldLoop_null:
  "even (length S) \<Longrightarrow> foldLoop TC SF None (Some L) (Some R) S M = Inl NullPointer"
  by (cases "S = []") (simp_all add: foldLoop.simps getOp_def makeBinOp_def)

section \<open>Folding chains\<close>

lemma foldSequence_right_tree:
  assumes "\<forall>(Op, E) \<in> set pairs. infixDataOf SF Op = Some info"
    and "isRightAssociative info"
    and "\<not> ucast (getPrecedence info) < M"
    and "pairs \<noteq> []"
  shows "foldSequence TC SF (Some E0) (interleave pairs) M =
           Inr (Some (rightTree E0 pairs), [], TC)"
  using assms
proof (induction pairs arbitrary: E0 M)
  case Nil
  then show ?case by simp
next
  case (Cons pr rest)
  obtain Op1 E1 where pr: "pr = (Op1, E1)" by (cases pr)
  from Cons.prems(1) pr have i1: "infixDataOf SF Op1 = Some info" by simp
  note q1 = infixDataOf_right_quiet [OF i1 Cons.prems(2)]
  note nc = right_assoc_not_cast [OF i1 Cons.prems(2)]
  have mk: "makeBinOp T (Some Op1) (Some E0) (Some R) = Inr (Some (foldedNode Op1 E0 R))"
    for T R
    by (simp add: makeBinOp_foldedNode [OF i1] nc)
  have entry: "foldSequence TC SF (Some E0) (interleave (pr # rest)) M =
      foldLoop TC SF (Some (Op1, info)) (Some E0) (Some E1) (interleave rest) M"
    using Cons.prems(3)
    by (simp add: foldSequence.simps pr even_length_interleave getNextOperator_Cons q1)
  show ?case
  proof (cases rest)
    case Nil
    with entry pr show ?thesis
      by (simp add: foldLoop_Nil mk)
  next
    case (Cons pr2 rest')
    obtain Op2 E2 where pr2: "pr2 = (Op2, E2)" by (cases pr2)
    from Cons.prems(1) Cons pr2 have i2: "infixDataOf SF Op2 = Some info" by simp
    note q2 = infixDataOf_right_quiet [OF i2 Cons.prems(2)]
    have S: "interleave rest = Some Op2 # Some E2 # interleave rest'"
      using Cons pr2 by simp
    from Cons.prems(1) have all: "\<forall>(Op, E) \<in> set rest. infixDataOf SF Op = Some info"
      by simp
    have "\<not> (ucast (getPrecedence info) :: 32 word) < ucast (getPrecedence info)" by simp
    from Cons.IH [OF all Cons.prems(2) this, of E1] Cons have
      fs: "foldSequence TC SF (Some E1) (interleave rest) (ucast (getPrecedence info))
            = Inr (Some (rightTree E1 rest), [], TC)"
      by auto
    have "foldLoop TC SF (Some (Op1, info)) (Some E0) (Some E1) (interleave rest) M =
        Inr (Some (foldedNode Op1 E0 (rightTree E1 rest)), [], TC)"
      by (subst foldLoop_right [where ?Op2.0 = Op2 and ?TC2.0 = TC])
         (simp_all add: S q2 Cons.prems even_length_interleave nc fs [unfolded S] mk)
    with entry pr show ?thesis by simp
  qed
qed

lemma strictlyDecreasing_infix:
  "strictlyDecreasing SF pairs \<Longrightarrow> \<forall>(Op, E) \<in> set pairs. infixDataOf SF Op \<noteq> None"
  by (induction SF pairs rule: strictlyDecreasing.induct) (auto split: option.splits)

lemma foldLoop_decreasing:
  assumes "infixDataOf SF Op1 = Some info1"
    and "strictlyDecreasing SF ((Op1, E1) # rest)"
  shows "foldLoop TC SF (Some (Op1, info1)) (Some L) (Some E1) (interleave rest) 0 =
     (if wellFormed SF ((Op1, E1) # rest)
      then Inr (Some (leftTree L ((Op1, E1) # rest)), [], TC)
      else Inl AssertionFailure)"
  using assms
proof (induction rest arbitrary: Op1 info1 E1 L)
  case Nil
  then show ?case
    by (simp add: foldLoop_Nil makeBinOp_foldedNode [OF Nil.prems(1)] wellFormed_def)
next
  case (Cons pr rest)
  obtain Op2 E2 where pr: "pr = (Op2, E2)" by (cases pr)
  from Cons.prems pr obtain info2 where
    i2: "infixDataOf SF Op2 = Some info2" and
    lt: "getPrecedence info2 < getPrecedence info1" and
    dec: "strictlyDecreasing SF ((Op2, E2) # rest)"
    by (auto split: option.splits)
  note q2 = infixDataOf_quiet [OF i2 prec_lt_not_255 [OF lt]]
  have S: "interleave (pr # rest) = Some Op2 # Some E2 # interleave rest"
    by (simp add: pr)
  note IH = Cons.IH [OF i2 dec]
  note mk = makeBinOp_foldedNode [OF Cons.prems(1)]
  have wf: "wellFormed SF ((Op1, E1) # (Op2, E2) # rest) \<longleftrightarrow>
      (isaExplicitCastExpr Op1 \<longrightarrow> E1 = Op1) \<and> wellFormed SF ((Op2, E2) # rest)"
    using Cons.prems(1) by (simp add: wellFormed_Cons)
  show ?case
  proof (cases "isaExplicitCastExpr Op1")
    case True
    show ?thesis
      by (subst foldLoop_cast)
         (auto simp: S True even_length_interleave getNextOperator_Cons q2 IH pr mk wf)
  next
    case False
    show ?thesis
      by (subst foldLoop_immediate [where ?Op2.0 = Op2 and ?Op2Info.0 = info2 and ?TC2.0 = TC])
         (auto simp: S False even_length_interleave getNextOperator_Cons q2 IH pr lt mk wf)
  qed
qed

section \<open>The fold of a sequence as the parser builds it\<close>

text \<open>
  The invariant of the fold, for the proofs below. At a call with floor \<open>M\<close>, left-hand
  side \<open>L\<close>, the pair \<open>pend\<close> of the current operator and its operand (none at the
  entry of \<^verbatim>\<open>foldSequence\<close>) and the remaining pairs \<open>ps\<close>, either the call fails at
  the null operator, and then a cast is followed by an operator below 95, or it consumes a
  prefix of \<open>ps\<close> whose operators are all at or above the floor, stops at the end or at
  an operator below the floor, adds diagnostics of which those of a conflict are exactly
  the ones that the operators consumed call for, and returns a tree over the left-hand
  side, the pending pair and the pairs consumed.
\<close>

definition aboveFloor :: "SourceFile \<Rightarrow> (Expr \<times> Expr) list \<Rightarrow> 32 word \<Rightarrow> bool" where
  "aboveFloor SF pairs M =
     (\<forall>(Op, E) \<in> set pairs.
        case infixDataOf SF Op of None \<Rightarrow> False | Some info \<Rightarrow> \<not> ucast (getPrecedence info) < M)"

definition addDiags :: "TypeChecker \<Rightarrow> (DiagLoc \<times> Diag) list \<Rightarrow> TypeChecker" where
  "addDiags TC new = TC\<lparr>Diags := Diags TC @ new\<rparr>"

definition foldsWell ::
  "SourceFile \<Rightarrow> bool \<Rightarrow> 32 word \<Rightarrow> TypeChecker \<Rightarrow> Expr \<Rightarrow> (Expr \<times> Expr) list \<Rightarrow>
   (Expr \<times> Expr) list \<Rightarrow> error + (Expr option \<times> Expr option list \<times> TypeChecker) \<Rightarrow> bool" where
  "foldsWell SF crash M TC L pend ps res =
     ((crash \<and> res = Inl NullPointer) \<or>
      (\<exists>t cons ps' new.
          res = Inr (Some t, interleave ps', addDiags TC new) \<and> ps = cons @ ps' \<and>
          floorStops SF (interleave ps') M \<and> aboveFloor SF cons M \<and>
          filter isConflictDiag new =
            levelConflictsFrom SF (rev (map fst pend)) (map fst cons) \<and>
          isFoldOf t L (pend @ cons)))"

lemma addDiags_Nil [simp]: "addDiags TC [] = TC"
  by (simp add: addDiags_def)

lemma addDiags_addDiags [simp]: "addDiags (addDiags TC a) b = addDiags TC (a @ b)"
  by (simp add: addDiags_def)

subsection \<open>Trees over a sequence\<close>

lemma isFoldOf_pair: "isFoldOf (foldedNode Op L R) L [(Op, R)]"
proof (cases "isaExplicitCastExpr Op")
  case True
  from isFoldOf.cast [OF True isFoldOf.operand, of L R] show ?thesis by simp
next
  case False
  from isFoldOf.node [OF False isFoldOf.operand isFoldOf.operand, of L R] show ?thesis
    by simp
qed

lemma isFoldOf_left:
  "isFoldOf t A ps \<Longrightarrow> isFoldOf A E0 ps0 \<Longrightarrow> isFoldOf t E0 (ps0 @ ps)"
proof (induction t A ps rule: isFoldOf.induct)
  case (operand A)
  then show ?case by simp
next
  case (node Op l A before r E after)
  from isFoldOf.node [OF node.hyps(1) node.IH(1) [OF node.prems] node.hyps(3)]
  show ?case by simp
next
  case (cast Op l A before E)
  from isFoldOf.cast [OF cast.hyps(1) cast.IH [OF cast.prems], of E]
  show ?case by simp
qed

lemma isFoldOf_operand:
  "isFoldOf t E0 ps \<Longrightarrow> ps = pre @ (Op, A) # post \<Longrightarrow> \<not> isaExplicitCastExpr Op \<Longrightarrow>
   isFoldOf A E ps0 \<Longrightarrow> isFoldOf t E0 (pre @ (Op, E) # ps0 @ post)"
proof (induction t E0 ps arbitrary: pre post rule: isFoldOf.induct)
  case (operand E0)
  then show ?case by simp
next
  case (node Op' l E0 before r E' after)
  from node.prems(1) consider
    (here) "before = pre" "Op' = Op" "E' = A" "after = post"
    | (left) mid where "before = pre @ (Op, A) # mid" "post = mid @ (Op', E') # after"
    | (right) mid where "pre = before @ (Op', E') # mid" "after = mid @ (Op, A) # post"
    by (auto simp: append_eq_append_conv2 append_eq_Cons_conv Cons_eq_append_conv)
  then show ?case
  proof cases
    case here
    from isFoldOf_left [OF node.hyps(3) [unfolded here] node.prems(3)]
    have "isFoldOf r E (ps0 @ post)" by (simp add: here)
    from isFoldOf.node [OF node.prems(2) node.hyps(2) this]
    show ?thesis by (simp add: here)
  next
    case left
    from node.IH(1) [OF left(1) node.prems(2,3)]
    have "isFoldOf l E0 (pre @ (Op, E) # ps0 @ mid)" .
    from isFoldOf.node [OF node.hyps(1) this node.hyps(3)]
    show ?thesis by (simp add: left)
  next
    case right
    from node.IH(2) [OF right(2) node.prems(2,3)]
    have "isFoldOf r E' (mid @ (Op, E) # ps0 @ post)" .
    from isFoldOf.node [OF node.hyps(1,2) this]
    show ?thesis by (simp add: right)
  qed
next
  case (cast Op' l E0 before E')
  from cast.prems(1) consider
    (here) "before = pre" "Op' = Op" "E' = A" "post = []"
    | (left) mid where "before = pre @ (Op, A) # mid" "post = mid @ [(Op', E')]"
    by (auto simp: append_eq_append_conv2 append_eq_Cons_conv Cons_eq_append_conv)
  then show ?case
  proof cases
    case here
    with cast.hyps(1) cast.prems(2) show ?thesis by simp
  next
    case left
    from cast.IH [OF left(1) cast.prems(2,3)]
    have "isFoldOf l E0 (pre @ (Op, E) # ps0 @ mid)" .
    from isFoldOf.cast [OF cast.hyps(1) this, of E']
    show ?thesis by (simp add: left)
  qed
qed

subsection \<open>The operators that the fold compares\<close>

lemma find_append:
  "List.find P (xs @ ys) = (case List.find P xs of None \<Rightarrow> List.find P ys | Some x \<Rightarrow> Some x)"
  by (induction xs) auto

lemma conflictOf_bindsNoTighter:
  "\<not> bindsNoTighter SF Op2 Op1 \<Longrightarrow> conflictOf SF Op1 Op2 = None"
  by (auto simp: bindsNoTighter_def conflictOf_def split: option.splits)

lemma bindsNoTighter_trans:
  "bindsNoTighter SF k o1 \<Longrightarrow> bindsNoTighter SF o1 b \<Longrightarrow> bindsNoTighter SF k b"
  by (auto simp: bindsNoTighter_def split: option.splits)

lemma levelConflictsFrom_append:
  "levelConflictsFrom SF seen (xs @ ys) =
     levelConflictsFrom SF seen xs @ levelConflictsFrom SF (rev xs @ seen) ys"
  by (induction xs arbitrary: seen) auto

lemma levelConflictsFrom_single:
  "levelConflictsFrom SF [Op1] (Op2 # xs) =
     option_list (conflictOf SF Op1 Op2) @ levelConflictsFrom SF [Op2, Op1] xs"
  by (simp add: conflictOf_bindsNoTighter option_list_def)

lemma levelConflictsFrom_Nil:
  "levelConflictsFrom SF [] (Op2 # xs) = levelConflictsFrom SF [Op2] xs"
  by simp

text \<open>
  The oldest operator passed does not matter when it is a cast, or when the operator
  passed after it does not bind tighter.
\<close>

lemma levelConflictsFrom_drop:
  assumes "isaExplicitCastExpr o1 \<or> (seen \<noteq> [] \<and> bindsNoTighter SF o1 (last seen))"
  shows "levelConflictsFrom SF (seen @ [o1]) xs = levelConflictsFrom SF seen xs"
  using assms
proof (induction xs arbitrary: seen)
  case Nil
  then show ?case by simp
next
  case (Cons k xs)
  have step: "(case List.find (bindsNoTighter SF k) (seen @ [o1]) of
        None \<Rightarrow> []
      | Some Op1 \<Rightarrow> option_list (conflictOf SF Op1 k)) =
     (case List.find (bindsNoTighter SF k) seen of
        None \<Rightarrow> []
      | Some Op1 \<Rightarrow> option_list (conflictOf SF Op1 k))"
  proof (cases "List.find (bindsNoTighter SF k) seen")
    case (Some x)
    then show ?thesis by (simp add: find_append)
  next
    case None
    show ?thesis
    proof (cases "bindsNoTighter SF k o1")
      case False
      with None show ?thesis by (simp add: find_append)
    next
      case True
      have "conflictOf SF o1 k = None"
      proof (cases "isaExplicitCastExpr o1")
        case True
        then show ?thesis by (auto simp: conflictOf_def split: option.splits)
      next
        case False
        with Cons.prems have ne: "seen \<noteq> []" and b: "bindsNoTighter SF o1 (last seen)"
          by auto
        from bindsNoTighter_trans [OF True b] have "bindsNoTighter SF k (last seen)" .
        moreover from ne have "last seen \<in> set seen" by simp
        ultimately have "List.find (bindsNoTighter SF k) seen \<noteq> None"
          by (auto simp: find_None_iff)
        with None show ?thesis by simp
      qed
      with None True show ?thesis by (simp add: find_append option_list_def)
    qed
  qed
  from Cons.prems have "isaExplicitCastExpr o1 \<or>
      (k # seen \<noteq> [] \<and> bindsNoTighter SF o1 (last (k # seen)))"
    by auto
  from Cons.IH [OF this] step show ?case by simp
qed

text \<open>
  The oldest operator passed does not matter for operators that are not in conflict
  with it.
\<close>

lemma levelConflictsFrom_no_conflict:
  assumes "\<forall>k \<in> set xs. conflictOf SF o1 k = None"
  shows "levelConflictsFrom SF (seen @ [o1]) xs = levelConflictsFrom SF seen xs"
  using assms
proof (induction xs arbitrary: seen)
  case Nil
  then show ?case by simp
next
  case (Cons k xs)
  from Cons.prems have n: "conflictOf SF o1 k = None" by simp
  have step: "(case List.find (bindsNoTighter SF k) (seen @ [o1]) of
        None \<Rightarrow> []
      | Some Op1 \<Rightarrow> option_list (conflictOf SF Op1 k)) =
     (case List.find (bindsNoTighter SF k) seen of
        None \<Rightarrow> []
      | Some Op1 \<Rightarrow> option_list (conflictOf SF Op1 k))"
    by (cases "List.find (bindsNoTighter SF k) seen")
       (auto simp: find_append n option_list_def)
  from Cons.prems have "\<forall>k \<in> set xs. conflictOf SF o1 k = None" by simp
  from Cons.IH [OF this, of "k # seen"] step show ?case by simp
qed

text \<open>
  Operators passed before one that does not bind tighter than they do are hidden by it.
\<close>

lemma levelConflictsFrom_hidden:
  assumes "front \<noteq> []" and "\<forall>m \<in> set mid. bindsNoTighter SF m (last front)"
  shows "levelConflictsFrom SF (front @ mid @ seen) ys = levelConflictsFrom SF (front @ seen) ys"
  using assms
proof (induction ys arbitrary: front)
  case Nil
  then show ?case by simp
next
  case (Cons y ys)
  have f: "List.find (bindsNoTighter SF y) (front @ mid @ seen) =
      List.find (bindsNoTighter SF y) (front @ seen)"
  proof (cases "List.find (bindsNoTighter SF y) front")
    case (Some x)
    then show ?thesis by (simp add: find_append)
  next
    case None
    from Cons.prems(1) have "last front \<in> set front" by simp
    with None have nb: "\<not> bindsNoTighter SF y (last front)"
      by (auto simp: find_None_iff)
    have "\<not> bindsNoTighter SF y m" if "m \<in> set mid" for m
      using bindsNoTighter_trans [of SF y m "last front"] Cons.prems(2) that nb by auto
    then have "List.find (bindsNoTighter SF y) mid = None"
      by (auto simp: find_None_iff)
    with None show ?thesis by (simp add: find_append)
  qed
  from Cons.prems have "y # front \<noteq> []" "\<forall>m \<in> set mid. bindsNoTighter SF m (last (y # front))"
    by auto
  from Cons.IH [OF this] f show ?case by simp
qed

lemma subseq_adjacent_level:
  "subseq (adjacentConflicts SF (x # xs)) (levelConflictsFrom SF (x # seen) xs)"
proof (induction xs arbitrary: x seen)
  case Nil
  then show ?case by simp
next
  case (Cons y ys)
  have "subseq (option_list (conflictOf SF x y))
      (case List.find (bindsNoTighter SF y) (x # seen) of
        None \<Rightarrow> []
      | Some Op1 \<Rightarrow> option_list (conflictOf SF Op1 y))"
  proof (cases "bindsNoTighter SF y x")
    case True
    then show ?thesis by simp
  next
    case False
    then show ?thesis by (simp add: conflictOf_bindsNoTighter option_list_def)
  qed
  from list_emb_append_mono [OF this Cons.IH [of y "x # seen"]]
  show ?case by simp
qed

lemma subseq_adjacent_levelConflicts:
  "subseq (adjacentConflicts SF ops) (levelConflicts SF ops)"
proof (cases ops)
  case Nil
  then show ?thesis by simp
next
  case (Cons x xs)
  from subseq_adjacent_level [of SF x xs "[]"] show ?thesis
    by (simp add: Cons levelConflicts_def)
qed

subsection \<open>The invariant step by step\<close>

lemma foldsWellI:
  assumes "res = Inr (Some t, interleave ps', addDiags TC new)" and "ps = cons @ ps'"
    and "floorStops SF (interleave ps') M" and "aboveFloor SF cons M"
    and "filter isConflictDiag new = levelConflictsFrom SF (rev (map fst pend)) (map fst cons)"
    and "isFoldOf t L (pend @ cons)"
  shows "foldsWell SF crash M TC L pend ps res"
  unfolding foldsWell_def using assms by blast

lemma foldsWellE:
  assumes "foldsWell SF crash M TC L pend ps res"
  obtains (crash) "crash" "res = Inl NullPointer"
  | (ok) t cons ps' new where "res = Inr (Some t, interleave ps', addDiags TC new)"
      "ps = cons @ ps'" "floorStops SF (interleave ps') M" "aboveFloor SF cons M"
      "filter isConflictDiag new = levelConflictsFrom SF (rev (map fst pend)) (map fst cons)"
      "isFoldOf t L (pend @ cons)"
  using assms unfolding foldsWell_def by blast

lemma foldsWell_crash: "crash \<Longrightarrow> foldsWell SF crash M TC L pend ps (Inl NullPointer)"
  by (simp add: foldsWell_def)

lemma foldsWell_mono:
  "foldsWell SF crash M TC L pend ps res \<Longrightarrow> (crash \<Longrightarrow> crash') \<Longrightarrow>
   foldsWell SF crash' M TC L pend ps res"
  unfolding foldsWell_def by blast

lemma foldsWell_return:
  assumes "floorStops SF (interleave ps) M" and "filter isConflictDiag n0 = []"
  shows "foldsWell SF crash M TC L [] ps (Inr (Some L, interleave ps, addDiags TC n0))"
  by (rule foldsWellI [where cons = "[]" and new = n0 and t = L and ps' = ps])
     (simp_all add: assms aboveFloor_def isFoldOf.operand)

lemma foldsWell_exit:
  assumes "floorStops SF (interleave ps) M" and "filter isConflictDiag n0 = []"
  shows "foldsWell SF crash M TC L [(op1, r)] ps
           (Inr (Some (foldedNode op1 L r), interleave ps, addDiags TC n0))"
  by (rule foldsWellI [where cons = "[]" and new = n0 and t = "foldedNode op1 L r"
          and ps' = ps])
     (simp_all add: assms aboveFloor_def isFoldOf_pair)

lemma foldsWell_earlier:
  assumes "foldsWell SF crash M (addDiags TC n0) L pend ps res"
    and "filter isConflictDiag n0 = []"
  shows "foldsWell SF crash M TC L pend ps res"
  using assms(1)
proof (cases rule: foldsWellE)
  case crash
  then show ?thesis by (simp add: foldsWell_crash)
next
  case (ok t cons ps' new)
  show ?thesis
    by (rule foldsWellI [where cons = cons and new = "n0 @ new" and t = t and ps' = ps'])
       (use ok assms(2) in simp_all)
qed

lemma foldsWell_pending:
  assumes "foldsWell SF crash M TC L [(op, e)] rest res"
    and "infixDataOf SF op = Some info" and "\<not> ucast (getPrecedence info) < M"
  shows "foldsWell SF crash M TC L [] ((op, e) # rest) res"
  using assms(1)
proof (cases rule: foldsWellE)
  case crash
  then show ?thesis by (simp add: foldsWell_crash)
next
  case (ok t cons ps' new)
  show ?thesis
    by (rule foldsWellI [where cons = "(op, e) # cons" and new = new and t = t
          and ps' = ps'])
       (use ok assms(2,3) in \<open>simp_all add: aboveFloor_def\<close>)
qed

lemma foldsWell_folded_first:
  assumes "foldsWell SF crash M (addDiags TC n0) (foldedNode op1 L r) [] ps res"
    and "ps = (op2, e2) # rest"
    and "infixDataOf SF op2 = Some info2" and "\<not> ucast (getPrecedence info2) < M"
    and "filter isConflictDiag n0 = option_list (conflictOf SF op1 op2)"
    and "isaExplicitCastExpr op1 \<or> bindsNoTighter SF op1 op2"
  shows "foldsWell SF crash M TC L [(op1, r)] ps res"
  using assms(1)
proof (cases rule: foldsWellE)
  case crash
  then show ?thesis by (simp add: foldsWell_crash)
next
  case (ok t cons ps' new)
  have "cons \<noteq> []"
  proof
    assume "cons = []"
    with ok(2) assms(2) have "ps' = (op2, e2) # rest" by simp
    with ok(3) assms(3,4) show False by simp
  qed
  with ok(2) assms(2) obtain c' where c': "cons = (op2, e2) # c'" by (cases cons) auto
  from assms(6) have "levelConflictsFrom SF ([op2] @ [op1]) (map fst c') =
      levelConflictsFrom SF [op2] (map fst c')"
    by (intro levelConflictsFrom_drop) simp
  with ok(5) assms(5)
  have c: "filter isConflictDiag (n0 @ new) =
      levelConflictsFrom SF (rev (map fst [(op1, r)])) (map fst cons)"
    by (simp add: c' levelConflictsFrom_single levelConflictsFrom_Nil
          del: levelConflictsFrom.simps(2))
  from isFoldOf_left [OF _ isFoldOf_pair] ok(6)
  have t: "isFoldOf t L ([(op1, r)] @ cons)" by simp
  show ?thesis
    by (rule foldsWellI [where cons = cons and new = "n0 @ new", OF _ ok(2,3,4) c t])
       (simp add: ok(1))
qed

lemma conflictOf_prec:
  assumes "infixDataOf SF a = Some i" and "infixDataOf SF b = Some j"
    and "getPrecedence i \<noteq> getPrecedence j"
  shows "conflictOf SF a b = None"
  using assms by (simp add: conflictOf_def)

lemma aboveFloor_lower:
  assumes "aboveFloor SF cons M1" and "M \<le> M1"
  shows "aboveFloor SF cons M"
  using assms by (fastforce simp: aboveFloor_def split: option.splits)

lemma aboveFloor_append:
  "aboveFloor SF (xs @ ys) M \<longleftrightarrow> aboveFloor SF xs M \<and> aboveFloor SF ys M"
  by (auto simp: aboveFloor_def)

lemma aboveFloor_E:
  assumes "aboveFloor SF cons M" and "(Op, E) \<in> set cons"
  obtains info where "infixDataOf SF Op = Some info" "\<not> ucast (getPrecedence info) < M"
  using assms by (auto simp: aboveFloor_def split: option.splits)

lemma levelConflictsFrom_boundary:
  assumes "aboveFloor SF cons1 M1" and "floorStops SF (interleave (cons2 @ ps')) M1"
  shows "levelConflictsFrom SF (rev (map fst cons1) @ seen) (map fst cons2) =
     levelConflictsFrom SF seen (map fst cons2)"
proof (cases cons2)
  case Nil
  then show ?thesis by simp
next
  case (Cons pr c2)
  obtain k e where pr: "pr = (k, e)" by (cases pr)
  from assms(2) Cons pr obtain j where j: "infixDataOf SF k = Some j"
    "ucast (getPrecedence j) < M1"
    by (auto split: option.splits)
  have above: "\<exists>i. infixDataOf SF m = Some i \<and> getPrecedence j < getPrecedence i"
    if "m \<in> set (map fst cons1)" for m
  proof -
    from that obtain e' where "(m, e') \<in> set cons1" by auto
    from aboveFloor_E [OF assms(1) this] obtain i where
      i: "infixDataOf SF m = Some i" "\<not> ucast (getPrecedence i) < M1" by blast
    from i(2) j(2) have "(ucast (getPrecedence j) :: 32 word) < ucast (getPrecedence i)"
      by simp
    then have "getPrecedence j < getPrecedence i" by (simp only: ucast_mono_8_32)
    with i(1) show ?thesis by blast
  qed
  have "\<not> bindsNoTighter SF k m" if "m \<in> set (rev (map fst cons1))" for m
    using above [of m] that j(1) by (auto simp: bindsNoTighter_def)
  then have f: "List.find (bindsNoTighter SF k) (rev (map fst cons1)) = None"
    by (auto simp: find_None_iff)
  have "\<forall>m \<in> set (rev (map fst cons1)). bindsNoTighter SF m (last [k])"
    using above j(1) by (fastforce simp: bindsNoTighter_def)
  from levelConflictsFrom_hidden [OF _ this, of seen "map fst c2"]
  have "levelConflictsFrom SF (k # rev (map fst cons1) @ seen) (map fst c2) =
      levelConflictsFrom SF (k # seen) (map fst c2)" by simp
  then show ?thesis
    by (simp add: Cons pr find_append f)
qed

lemma levelConflictsFrom_below:
  assumes "infixDataOf SF op1 = Some info1"
    and "floorStops SF (interleave (cons2 @ ps')) (ucast (getPrecedence info1))"
  shows "levelConflictsFrom SF [op1] (map fst cons2) = levelConflictsFrom SF [] (map fst cons2)"
proof (cases cons2)
  case Nil
  then show ?thesis by simp
next
  case (Cons pr c2)
  obtain k e where pr: "pr = (k, e)" by (cases pr)
  from assms(2) Cons pr obtain j where j: "infixDataOf SF k = Some j"
    "(ucast (getPrecedence j) :: 32 word) < ucast (getPrecedence info1)"
    by (auto split: option.splits)
  from j(2) have lt: "getPrecedence j < getPrecedence info1" by (simp only: ucast_mono_8_32)
  then have "getPrecedence info1 \<noteq> getPrecedence j" by simp
  note n = conflictOf_prec [OF assms(1) j(1) this]
  from lt assms(1) j(1) have "bindsNoTighter SF op1 k" by (simp add: bindsNoTighter_def)
  then have "levelConflictsFrom SF ([k] @ [op1]) (map fst c2) =
      levelConflictsFrom SF [k] (map fst c2)"
    by (intro levelConflictsFrom_drop) simp
  then show ?thesis
    by (simp add: Cons pr levelConflictsFrom_single n option_list_def)
qed

lemma foldsWell_lower:
  assumes "ps = cons1 @ ps1" and "aboveFloor SF cons1 (ucast (getPrecedence info1) + 1)"
    and "floorStops SF (interleave ps1) (ucast (getPrecedence info1) + 1)"
    and "filter isConflictDiag new1 = levelConflictsFrom SF [] (map fst cons1)"
    and "isFoldOf t1 r cons1"
    and w: "foldsWell SF crash M (addDiags TC (n0 @ new1)) L [(op1, t1)] ps1 res"
    and ps: "ps = (op2, e2) # rest"
    and i1: "infixDataOf SF op1 = Some info1" and i2: "infixDataOf SF op2 = Some info2"
    and lt: "getPrecedence info1 < getPrecedence info2"
    and fl: "\<not> ucast (getPrecedence info1) < M"
    and nc: "\<not> isaExplicitCastExpr op1"
    and q: "filter isConflictDiag n0 = []"
  shows "foldsWell SF crash M TC L [(op1, r)] ps res"
  using w
proof (cases rule: foldsWellE)
  case crash
  then show ?thesis by (simp add: foldsWell_crash)
next
  case (ok t cons2 ps' new2)
  from assms(3) ok(2) have st:
    "floorStops SF (interleave (cons2 @ ps')) (ucast (getPrecedence info1) + 1)"
    by simp
  have "conflictOf SF op1 k = None" if "k \<in> set (map fst cons1)" for k
  proof -
    from that obtain e' where "(k, e') \<in> set cons1" by auto
    from aboveFloor_E [OF assms(2) this] obtain i where
      i: "infixDataOf SF k = Some i" "\<not> ucast (getPrecedence i) < (ucast (getPrecedence info1) + 1 :: 32 word)"
      by blast
    from i(2) have "getPrecedence info1 \<noteq> getPrecedence i" by (auto simp: floor_succ)
    from conflictOf_prec [OF i1 i(1) this] show ?thesis .
  qed
  then have "levelConflictsFrom SF ([] @ [op1]) (map fst cons1) =
      levelConflictsFrom SF [] (map fst cons1)"
    by (intro levelConflictsFrom_no_conflict) simp
  moreover note levelConflictsFrom_boundary [OF assms(2) st, of "[op1]"]
  ultimately have c: "filter isConflictDiag (n0 @ new1 @ new2) =
      levelConflictsFrom SF (rev (map fst [(op1, r)])) (map fst (cons1 @ cons2))"
    using assms(4) ok(5) q by (simp add: levelConflictsFrom_append)
  have "(ucast (getPrecedence info1) :: 32 word) \<le> ucast (getPrecedence info1) + 1"
    by (simp add: word_le_nat_alt unat_ucast_8_32 unat_ucast_succ)
  with fl have "M \<le> ucast (getPrecedence info1) + 1" by simp
  from aboveFloor_lower [OF assms(2) this] ok(4)
  have a: "aboveFloor SF (cons1 @ cons2) M" by (simp add: aboveFloor_append)
  from isFoldOf_operand [OF ok(6) _ nc assms(5), of "[]" cons2]
  have t: "isFoldOf t L ([(op1, r)] @ cons1 @ cons2)" by simp
  show ?thesis
    by (rule foldsWellI [where cons = "cons1 @ cons2" and new = "n0 @ new1 @ new2",
          OF _ _ ok(3) a c t])
       (simp_all add: ok(1,2) assms(1))
qed

lemma conflictOf_right:
  assumes "infixDataOf SF a = Some i" and "infixDataOf SF b = Some i"
    and "isRightAssociative i"
  shows "conflictOf SF a b = None"
  using assms by (simp add: conflictOf_def isRightAssociative_def isNonAssociative_def)

lemma foldsWell_right:
  assumes "ps = cons1 @ ps1" and "aboveFloor SF cons1 (ucast (getPrecedence info1))"
    and "floorStops SF (interleave ps1) (ucast (getPrecedence info1))"
    and "filter isConflictDiag new1 = levelConflictsFrom SF [] (map fst cons1)"
    and "isFoldOf t1 r cons1"
    and w: "if ps1 = []
            then res = Inr (Some (foldedNode op1 L t1), [], addDiags TC (n0 @ new1))
            else foldsWell SF crash M (addDiags TC (n0 @ new1)) (foldedNode op1 L t1) [] ps1 res"
    and ps: "ps = (op2, e2) # rest"
    and i1: "infixDataOf SF op1 = Some info1" and i2: "infixDataOf SF op2 = Some info1"
    and ra: "isRightAssociative info1"
    and fl: "\<not> ucast (getPrecedence info1) < M"
    and nc: "\<not> isaExplicitCastExpr op1"
    and q: "filter isConflictDiag n0 = []"
  shows "foldsWell SF crash M TC L [(op1, r)] ps res"
proof -
  have ne: "cons1 \<noteq> []"
  proof
    assume "cons1 = []"
    with assms(1) ps have "ps1 = (op2, e2) # rest" by simp
    with assms(3) i2 have "ucast (getPrecedence info1) <
        (ucast (getPrecedence info1) :: 32 word)" by simp
    then show False by simp
  qed
  with assms(1) ps obtain c1 where c1: "cons1 = (op2, e2) # c1" by (cases cons1) auto
  note n12 = conflictOf_right [OF i1 i2 ra]
  from fl have "M \<le> ucast (getPrecedence info1)" by simp
  note a1 = aboveFloor_lower [OF assms(2) this]
  from isFoldOf.node [OF nc isFoldOf.operand assms(5), of L]
  have t1: "isFoldOf (foldedNode op1 L t1) L ((op1, r) # cons1)" by simp
  from i1 i2 have "bindsNoTighter SF op1 op2" by (simp add: bindsNoTighter_def)
  then have "levelConflictsFrom SF ([op2] @ [op1]) (map fst c1) =
      levelConflictsFrom SF [op2] (map fst c1)"
    by (intro levelConflictsFrom_drop) simp
  then have c1': "levelConflictsFrom SF [op1] (map fst cons1) =
      levelConflictsFrom SF [] (map fst cons1)"
    by (simp add: c1 levelConflictsFrom_single n12 option_list_def)
  show ?thesis
  proof (cases "ps1 = []")
    case True
    with w have res: "res = Inr (Some (foldedNode op1 L t1), [], addDiags TC (n0 @ new1))"
      by simp
    show ?thesis
      by (rule foldsWellI [where cons = cons1 and new = "n0 @ new1" and ps' = "[]"
            and t = "foldedNode op1 L t1"])
         (use res True assms(1,4) a1 t1 c1' q in simp_all)
  next
    case False
    with w have "foldsWell SF crash M (addDiags TC (n0 @ new1)) (foldedNode op1 L t1) [] ps1 res"
      by simp
    then show ?thesis
    proof (cases rule: foldsWellE)
      case crash
      then show ?thesis by (simp add: foldsWell_crash)
    next
      case (ok t cons2 ps' new2)
      from assms(3) ok(2) have st:
        "floorStops SF (interleave (cons2 @ ps')) (ucast (getPrecedence info1))"
        by simp
      from levelConflictsFrom_boundary [OF assms(2) st, of "[op1]"]
        levelConflictsFrom_below [OF i1 st] c1' assms(4) ok(5) q
      have c: "filter isConflictDiag (n0 @ new1 @ new2) =
          levelConflictsFrom SF (rev (map fst [(op1, r)])) (map fst (cons1 @ cons2))"
        by (simp add: levelConflictsFrom_append)
      from a1 ok(4) have a: "aboveFloor SF (cons1 @ cons2) M"
        by (simp add: aboveFloor_append)
      from isFoldOf_left [OF _ t1] ok(6)
      have t: "isFoldOf t L ([(op1, r)] @ cons1 @ cons2)" by simp
      show ?thesis
        by (rule foldsWellI [where cons = "cons1 @ cons2" and new = "n0 @ new1 @ new2",
              OF _ _ ok(3) a c t])
           (simp_all add: ok(1,2) assms(1))
    qed
  qed
qed

subsection \<open>The invariant holds\<close>

lemma getInfixData_emits:
  assumes "infixDataOf SF E = Some info"
  shows "\<exists>n0. getInfixData TC SF (Some E) = Inr (info, addDiags TC n0) \<and>
              filter isConflictDiag n0 = []"
proof -
  from infixDataOf_getInfixData [OF assms] obtain TC' where
    g: "getInfixData TC SF (Some E) = Inr (info, TC')" by blast
  from getInfixData_cases [OF g]
  have "TC' = addDiags TC [] \<or> TC' = addDiags TC [(AtExpr E, unknown_binop)]"
    by (auto simp: diagnose_def addDiags_def)
  moreover have "filter isConflictDiag [] = []"
    "filter isConflictDiag [(AtExpr E, unknown_binop)] = []"
    by (simp_all add: isConflictDiag_def)
  ultimately show ?thesis using g by blast
qed

lemma isConflictDiag_conflictDiag: "isConflictDiag (conflictDiag Op1 info1 Op2 info2)"
  by (simp add: isConflictDiag_def conflictDiag_def)

lemma noLowerAfterCast_tl: "noLowerAfterCast SF (a # xs) \<Longrightarrow> noLowerAfterCast SF xs"
  by (cases xs) auto

lemma noLowerAfterCast_suffix: "noLowerAfterCast SF (xs @ ys) \<Longrightarrow> noLowerAfterCast SF ys"
  by (induction xs) (auto dest: noLowerAfterCast_tl)

lemma noLowerAfterCast_Cons:
  "\<not> isaExplicitCastExpr a \<Longrightarrow> noLowerAfterCast SF xs \<Longrightarrow> noLowerAfterCast SF (a # xs)"
  by (cases xs) auto

lemma conflictOf_immediate:
  assumes "infixDataOf SF a = Some i" and "infixDataOf SF b = Some j"
    and "getPrecedence i > getPrecedence j \<or> (i = j \<and> isLeftAssociative i)"
  shows "conflictOf SF a b = None"
  using assms
  by (auto simp: conflictOf_def isLeftAssociative_def isNonAssociative_def)

lemma conflictOf_conflict:
  assumes "infixDataOf SF a = Some i" and "infixDataOf SF b = Some j"
    and "\<not> isaExplicitCastExpr a"
    and "getPrecedence j = getPrecedence i"
    and "getAssociativity i \<noteq> getAssociativity j \<or> isNonAssociative i"
  shows "conflictOf SF a b = Some (conflictDiag a i b j)"
  using assms by (auto simp: conflictOf_def)

lemma conflictOf_cast: "isaExplicitCastExpr a \<Longrightarrow> conflictOf SF a b = None"
  by (auto simp: conflictOf_def split: option.splits)

lemma fold_well_formed:
  "\<forall>L ps. LHS = Some L \<longrightarrow> S = interleave ps \<longrightarrow> ps \<noteq> [] \<longrightarrow> wellFormed SF ps \<longrightarrow>
     foldsWell SF (\<not> noLowerAfterCast SF (map fst ps)) M TC L [] ps
       (foldSequence TC SF LHS S M)"
  "\<forall>op1 info1 L r ps. Op1 = Some (op1, info1) \<longrightarrow> LHS = Some L \<longrightarrow> RHS = Some r \<longrightarrow>
     S = interleave ps \<longrightarrow> wellFormed SF ps \<longrightarrow> infixDataOf SF op1 = Some info1 \<longrightarrow>
     (isaExplicitCastExpr op1 \<longrightarrow> r = op1) \<longrightarrow> \<not> ucast (getPrecedence info1) < M \<longrightarrow>
     foldsWell SF (\<not> noLowerAfterCast SF (op1 # map fst ps)) M TC L [(op1, r)] ps
       (foldLoop TC SF Op1 LHS RHS S M)"
proof (induct TC SF LHS S M and TC SF Op1 LHS RHS S M rule: foldSequence_foldLoop.induct)
  case (1 TC SF LHS S M)
  show ?case
  proof (intro allI impI)
    fix L ps
    assume lhs: "LHS = Some L" and S: "S = interleave ps" and ne: "ps \<noteq> []"
      and wf: "wellFormed SF ps"
    from ne obtain Op E rest where ps: "ps = (Op, E) # rest" by (cases ps) auto
    from wf ps obtain info where i: "infixDataOf SF Op = Some info"
      and ce: "isaExplicitCastExpr Op \<longrightarrow> E = Op" and wfr: "wellFormed SF rest"
      by (auto simp: wellFormed_Cons)
    have S': "S = Some Op # Some E # interleave rest" by (simp add: S ps)
    have nn: "\<not> (S = [] \<or> odd (length S))" by (simp add: S' even_length_interleave)
    from getInfixData_emits [OF i] obtain n0 where
      gi: "getInfixData TC SF (Some Op) = Inr (info, addDiags TC n0)"
      and q0: "filter isConflictDiag n0 = []" by blast
    show "foldsWell SF (\<not> noLowerAfterCast SF (map fst ps)) M TC L [] ps
       (foldSequence TC SF LHS S M)"
    proof (cases "ucast (getPrecedence info) < M")
      case True
      then have eq: "foldSequence TC SF LHS S M = Inr (Some L, interleave ps, addDiags TC n0)"
        by (simp add: S' foldSequence_Cons gi even_length_interleave lhs ps)
      from True i have "floorStops SF (interleave ps) M" by (simp add: ps)
      then show ?thesis unfolding eq by (rule foldsWell_return [OF _ q0])
    next
      case False
      then have gn: "getNextOperator TC SF S M = Inr (Some (Op, info), addDiags TC n0)"
        by (simp add: S' getNextOperator_Cons gi)
      have eq: "foldSequence TC SF LHS S M =
          foldLoop (addDiags TC n0) SF (Some (Op, info)) LHS (Some E) (interleave rest) M"
        using False by (simp add: S' foldSequence_Cons gi even_length_interleave)
      have s1: "S ! 1 = Some E" "drop 2 S = interleave rest" "S ! Suc 0 = Some E"
        by (simp_all add: S')
      from "1.hyps" [OF nn gn refl refl, rule_format, of Op info L E rest]
      have "foldsWell SF (\<not> noLowerAfterCast SF (Op # map fst rest)) M (addDiags TC n0) L
          [(Op, E)] rest
          (foldLoop (addDiags TC n0) SF (Some (Op, info)) LHS (Some E) (interleave rest) M)"
        unfolding s1 using lhs wfr i ce False by simp
      from foldsWell_earlier [OF foldsWell_pending [OF this i False] q0]
      show ?thesis unfolding eq by (simp add: ps)
    qed
  qed
next
  case (2 TC SF Op1 LHS RHS S M)
  show ?case
  proof (intro allI impI)
    fix op1 info1 L r ps
    assume Op1: "Op1 = Some (op1, info1)" and lhs: "LHS = Some L" and rhs: "RHS = Some r"
      and S: "S = interleave ps" and wf: "wellFormed SF ps"
      and i1: "infixDataOf SF op1 = Some info1"
      and c1: "isaExplicitCastExpr op1 \<longrightarrow> r = op1"
      and fl: "\<not> ucast (getPrecedence info1) < M"
    have mk: "makeBinOp T (Some op1) LHS RHS = Inr (Some (foldedNode op1 L r))" for T
      unfolding lhs rhs by (rule makeBinOp_wellFormed [OF i1 c1])
    show "foldsWell SF (\<not> noLowerAfterCast SF (op1 # map fst ps)) M TC L [(op1, r)] ps
       (foldLoop TC SF Op1 LHS RHS S M)"
    proof (cases ps)
      case Nil
      then have eq: "foldLoop TC SF Op1 LHS RHS S M =
          Inr (Some (foldedNode op1 L r), interleave ps, addDiags TC [])"
        by (simp add: S Op1 foldLoop_Nil mk)
      have "floorStops SF (interleave ps) M" by (simp add: Nil)
      then show ?thesis unfolding eq by (rule foldsWell_exit) simp
    next
      case (Cons pr rest)
      obtain Op2 E2 where pr: "pr = (Op2, E2)" by (cases pr)
      note ps = Cons [unfolded pr]
      from wf ps obtain info2 where i2: "infixDataOf SF Op2 = Some info2"
        and c2: "isaExplicitCastExpr Op2 \<longrightarrow> E2 = Op2" and wfr: "wellFormed SF rest"
        by (auto simp: wellFormed_Cons)
      have S': "S = Some Op2 # Some E2 # interleave rest" by (simp add: S ps)
      have ne: "S \<noteq> []" by (simp add: S')
      have ev: "\<not> odd (length S)" by (simp add: S' even_length_interleave)
      then have ev': "even (length S)" by simp
      have s0: "S ! 0 = Some Op2" by (simp add: S')
      have s1: "S ! 1 = Some E2" "drop 2 S = interleave rest" "S ! Suc 0 = Some E2"
        by (simp_all add: S')
      from getInfixData_emits [OF i2] obtain n0 where
        gi: "getInfixData TC SF (Some Op2) = Inr (info2, addDiags TC n0)"
        and q0: "filter isConflictDiag n0 = []" by blast
      have tl: "\<not> noLowerAfterCast SF (map fst ps) \<Longrightarrow>
          \<not> noLowerAfterCast SF (op1 # map fst ps)"
        by (blast dest: noLowerAfterCast_tl)
      have ops: "Op2 # map fst rest = map fst ps" by (simp add: ps)
      show ?thesis
      proof (cases "isaExplicitCastExpr op1")
        case cast: True
        from infixDataOf_cast(2) [OF i1 cast] have info1: "info1 = InfixData 95 AssocNone" .
        note n12 = conflictOf_cast [OF cast, of SF Op2]
        show ?thesis
        proof (cases "ucast (getPrecedence info2) < M")
          case True
          then have gn: "getNextOperator TC SF S M = Inr (None, addDiags TC n0)"
            by (simp add: S' getNextOperator_Cons gi)
          have "foldLoop TC SF Op1 LHS RHS S M = Inl NullPointer"
            unfolding Op1 foldLoop_cast [OF ne ev' fl cast]
            by (simp add: mk gn s1 foldLoop_null even_length_interleave)
          moreover
          from fl have "M \<le> 95" by (simp add: info1)
          with True have "(ucast (getPrecedence info2) :: 32 word) < ucast (95 :: 8 word)"
            by simp
          then have "getPrecedence info2 < 95" by (simp only: ucast_mono_8_32)
          then have "\<not> 95 \<le> getPrecedence info2" by simp
          with cast i2 have "\<not> noLowerAfterCast SF (op1 # map fst ps)"
            by (simp add: ps)
          ultimately show ?thesis by (simp add: foldsWell_crash)
        next
          case False
          then have gn: "getNextOperator TC SF S M = Inr (Some (Op2, info2), addDiags TC n0)"
            by (simp add: S' getNextOperator_Cons gi)
          have eq: "foldLoop TC SF Op1 LHS RHS S M =
              foldLoop (addDiags TC n0) SF (Some (Op2, info2)) (Some (foldedNode op1 L r))
                (Some E2) (interleave rest) M"
            unfolding Op1 foldLoop_cast [OF ne ev' fl cast]
            by (simp add: mk gn s1)
          from "2.hyps"(1) [OF ne ev Op1 refl fl cast mk gn refl,
              rule_format, of Op2 info2 "foldedNode op1 L r" E2 rest]
          have "foldsWell SF (\<not> noLowerAfterCast SF (Op2 # map fst rest)) M (addDiags TC n0)
              (foldedNode op1 L r) [(Op2, E2)] rest
              (foldLoop (addDiags TC n0) SF (Some (Op2, info2)) (Some (foldedNode op1 L r))
                (Some E2) (interleave rest) M)"
            unfolding s1 using wfr i2 c2 False by simp
          from foldsWell_pending [OF this i2 False]
          have w: "foldsWell SF (\<not> noLowerAfterCast SF (map fst ps)) M (addDiags TC n0)
              (foldedNode op1 L r) [] ps
              (foldLoop (addDiags TC n0) SF (Some (Op2, info2)) (Some (foldedNode op1 L r))
                (Some E2) (interleave rest) M)"
            unfolding ops ps .
          have sb: "filter isConflictDiag n0 = option_list (conflictOf SF op1 Op2)"
            by (simp add: n12 option_list_def q0)
          from cast have d: "isaExplicitCastExpr op1 \<or> bindsNoTighter SF op1 Op2" by simp
          show ?thesis
            unfolding eq
            by (rule foldsWell_mono [OF foldsWell_folded_first [OF w ps i2 False sb d] tl])
        qed
      next
        case nc: False
        note pre = ne ev Op1 refl fl nc s0 gi refl
        note br = ne ev' fl nc s0 gi
        show ?thesis
        proof (cases "ucast (getPrecedence info2) < M")
          case True
          have eq: "foldLoop TC SF Op1 LHS RHS S M =
              Inr (Some (foldedNode op1 L r), interleave ps, addDiags TC n0)"
            unfolding Op1 foldLoop_break [OF br True] by (simp add: mk S)
          from True i2 have "floorStops SF (interleave ps) M" by (simp add: ps)
          then show ?thesis unfolding eq by (rule foldsWell_exit [OF _ q0])
        next
          case nA: False
          show ?thesis
          proof (cases "getPrecedence info1 > getPrecedence info2 \<or>
                        (info1 = info2 \<and> isLeftAssociative info1)")
            case B: True
            note n12 = conflictOf_immediate [OF i1 i2 B]
            from getInfixData_emits [OF i2] obtain n1 where
              "getInfixData (addDiags TC n0) SF (Some Op2) = Inr (info2, addDiags (addDiags TC n0) n1)"
              and q1: "filter isConflictDiag n1 = []"
              by blast
            with nA have gn: "getNextOperator (addDiags TC n0) SF S M =
                Inr (Some (Op2, info2), addDiags TC (n0 @ n1))"
              by (simp add: S' getNextOperator_Cons)
            have eq: "foldLoop TC SF Op1 LHS RHS S M =
                foldLoop (addDiags TC (n0 @ n1)) SF (Some (Op2, info2))
                  (Some (foldedNode op1 L r)) (Some E2) (interleave rest) M"
              unfolding Op1 foldLoop_immediate [OF br nA B]
              by (simp add: mk gn s1)
            from "2.hyps"(2) [OF pre nA B mk gn refl refl,
                rule_format, of Op2 info2 "foldedNode op1 L r" E2 rest]
            have "foldsWell SF (\<not> noLowerAfterCast SF (Op2 # map fst rest)) M
                (addDiags TC (n0 @ n1)) (foldedNode op1 L r) [(Op2, E2)] rest
                (foldLoop (addDiags TC (n0 @ n1)) SF (Some (Op2, info2))
                  (Some (foldedNode op1 L r)) (Some E2) (interleave rest) M)"
              unfolding s1 using wfr i2 c2 nA by simp
            from foldsWell_pending [OF this i2 nA]
            have w: "foldsWell SF (\<not> noLowerAfterCast SF (map fst ps)) M
                (addDiags TC (n0 @ n1)) (foldedNode op1 L r) [] ps
                (foldLoop (addDiags TC (n0 @ n1)) SF (Some (Op2, info2))
                  (Some (foldedNode op1 L r)) (Some E2) (interleave rest) M)"
              unfolding ops ps .
            have sb: "filter isConflictDiag (n0 @ n1) = option_list (conflictOf SF op1 Op2)"
              by (simp add: n12 option_list_def q0 q1)
            from B i1 i2 have d: "isaExplicitCastExpr op1 \<or> bindsNoTighter SF op1 Op2"
              by (auto simp: bindsNoTighter_def)
            show ?thesis
              unfolding eq
              by (rule foldsWell_mono [OF foldsWell_folded_first [OF w ps i2 nA sb d] tl])
          next
            case nB: False
            show ?thesis
            proof (cases "getPrecedence info1 < getPrecedence info2")
              case C: True
              from "2.hyps"(3) [OF pre nA nB C, rule_format, of r ps]
              have "foldsWell SF (\<not> noLowerAfterCast SF (map fst ps))
                  (ucast (getPrecedence info1) + 1) (addDiags TC n0) r [] ps
                  (foldSequence (addDiags TC n0) SF RHS S (ucast (getPrecedence info1) + 1))"
                using rhs S wf by (simp add: ps)
              then show ?thesis
              proof (cases rule: foldsWellE)
                case crash
                have "foldLoop TC SF Op1 LHS RHS S M = Inl NullPointer"
                  unfolding Op1 foldLoop_lower [OF br nA C] by (simp add: crash(2))
                moreover from crash(1) have "\<not> noLowerAfterCast SF (op1 # map fst ps)"
                  by (rule tl)
                ultimately show ?thesis by (simp add: foldsWell_crash)
              next
                case (ok t1 cons1 ps1 new1)
                have eq: "foldLoop TC SF Op1 LHS RHS S M =
                    foldLoop (addDiags TC (n0 @ new1)) SF Op1 LHS (Some t1) (interleave ps1) M"
                  unfolding Op1 foldLoop_lower [OF br nA C] by (simp add: ok(1))
                from wf ok(2) have wf1: "wellFormed SF ps1" by (auto dest: wellFormed_suffix)
                from "2.hyps"(4) [OF pre nA nB C ok(1) [unfolded addDiags_addDiags] refl refl,
                    rule_format, of op1 info1 L t1 ps1]
                have "foldsWell SF (\<not> noLowerAfterCast SF (op1 # map fst ps1)) M
                    (addDiags TC (n0 @ new1)) L [(op1, t1)] ps1
                    (foldLoop (addDiags TC (n0 @ new1)) SF Op1 LHS (Some t1) (interleave ps1) M)"
                  using Op1 lhs wf1 i1 nc fl by simp
                then have "foldsWell SF (\<not> noLowerAfterCast SF (op1 # map fst ps)) M
                    (addDiags TC (n0 @ new1)) L [(op1, t1)] ps1
                    (foldLoop (addDiags TC (n0 @ new1)) SF Op1 LHS (Some t1) (interleave ps1) M)"
                proof (rule foldsWell_mono)
                  assume a: "\<not> noLowerAfterCast SF (op1 # map fst ps1)"
                  show "\<not> noLowerAfterCast SF (op1 # map fst ps)"
                  proof
                    assume "noLowerAfterCast SF (op1 # map fst ps)"
                    then have "noLowerAfterCast SF (map fst ps)" by (rule noLowerAfterCast_tl)
                    then have "noLowerAfterCast SF (map fst ps1)"
                      unfolding ok(2) map_append by (rule noLowerAfterCast_suffix)
                    from noLowerAfterCast_Cons [OF nc this] a show False by simp
                  qed
                qed
                note w2 = this
                have s5: "filter isConflictDiag new1 = levelConflictsFrom SF [] (map fst cons1)"
                  using ok(5) by simp
                have t6: "isFoldOf t1 r cons1" using ok(6) by simp
                show ?thesis
                  unfolding eq
                  by (rule foldsWell_lower [OF ok(2,4,3) s5 t6 w2 ps i1 i2 C fl nc q0])
              qed
            next
              case nC: False
              show ?thesis
              proof (cases "info1 = info2 \<and> isRightAssociative info1")
                case D: True
                then have i12: "info2 = info1" and ra: "isRightAssociative info1" by auto
                from "2.hyps"(5) [OF pre nA nB nC D, rule_format, of r ps]
                have "foldsWell SF (\<not> noLowerAfterCast SF (map fst ps))
                    (ucast (getPrecedence info1)) (addDiags TC n0) r [] ps
                    (foldSequence (addDiags TC n0) SF RHS S (ucast (getPrecedence info1)))"
                  using rhs S wf by (simp add: ps)
                then show ?thesis
                proof (cases rule: foldsWellE)
                  case crash
                  have "foldLoop TC SF Op1 LHS RHS S M = Inl NullPointer"
                    unfolding Op1 foldLoop_right [OF ne ev' fl nc s0 gi [unfolded i12] ra]
                    by (simp add: crash(2))
                  moreover from crash(1) have "\<not> noLowerAfterCast SF (op1 # map fst ps)"
                    by (rule tl)
                  ultimately show ?thesis by (simp add: foldsWell_crash)
                next
                  case (ok t1 cons1 ps1 new1)
                  have mk1: "makeBinOp T (Some op1) LHS (Some t1) =
                      Inr (Some (foldedNode op1 L t1))" for T
                    unfolding lhs by (rule makeBinOp_wellFormed [OF i1]) (simp add: nc)
                  have eq: "foldLoop TC SF Op1 LHS RHS S M =
                      (if interleave ps1 = []
                       then Inr (Some (foldedNode op1 L t1), interleave ps1, addDiags TC (n0 @ new1))
                       else foldSequence (addDiags TC (n0 @ new1)) SF
                              (Some (foldedNode op1 L t1)) (interleave ps1) M)"
                    unfolding Op1 foldLoop_right [OF ne ev' fl nc s0 gi [unfolded i12] ra]
                    by (simp add: ok(1) mk1)
                  from wf ok(2) have wf1: "wellFormed SF ps1" by (auto dest: wellFormed_suffix)
                  have e: "interleave ps1 = [] \<longleftrightarrow> ps1 = []" by (cases ps1) auto
                  have w: "if ps1 = []
                      then foldLoop TC SF Op1 LHS RHS S M =
                        Inr (Some (foldedNode op1 L t1), [], addDiags TC (n0 @ new1))
                      else foldsWell SF (\<not> noLowerAfterCast SF (op1 # map fst ps)) M
                        (addDiags TC (n0 @ new1)) (foldedNode op1 L t1) [] ps1
                        (foldLoop TC SF Op1 LHS RHS S M)"
                  proof (cases "ps1 = []")
                    case True
                    then show ?thesis by (simp add: eq)
                  next
                    case False
                    with e have ne1: "interleave ps1 \<noteq> []" by simp
                    from "2.hyps"(6) [OF pre nA nB nC D ok(1) [unfolded addDiags_addDiags]
                        refl refl mk1 ne1, rule_format, of "foldedNode op1 L t1" ps1]
                    have "foldsWell SF (\<not> noLowerAfterCast SF (map fst ps1)) M
                        (addDiags TC (n0 @ new1)) (foldedNode op1 L t1) [] ps1
                        (foldSequence (addDiags TC (n0 @ new1)) SF
                              (Some (foldedNode op1 L t1)) (interleave ps1) M)"
                      using False wf1 by simp
                    then have "foldsWell SF (\<not> noLowerAfterCast SF (op1 # map fst ps)) M
                        (addDiags TC (n0 @ new1)) (foldedNode op1 L t1) [] ps1
                        (foldSequence (addDiags TC (n0 @ new1)) SF
                              (Some (foldedNode op1 L t1)) (interleave ps1) M)"
                    proof (rule foldsWell_mono)
                      assume a: "\<not> noLowerAfterCast SF (map fst ps1)"
                      show "\<not> noLowerAfterCast SF (op1 # map fst ps)"
                      proof
                        assume "noLowerAfterCast SF (op1 # map fst ps)"
                        then have "noLowerAfterCast SF (map fst ps)" by (rule noLowerAfterCast_tl)
                        then have "noLowerAfterCast SF (map fst ps1)"
                          unfolding ok(2) map_append by (rule noLowerAfterCast_suffix)
                        with a show False by simp
                      qed
                    qed
                    with False ne1 show ?thesis by (simp add: eq)
                  qed
                  have s5: "filter isConflictDiag new1 =
                      levelConflictsFrom SF [] (map fst cons1)"
                    using ok(5) by simp
                  have t6: "isFoldOf t1 r cons1" using ok(6) by simp
                  show ?thesis
                    by (rule foldsWell_right
                          [OF ok(2,4,3) s5 t6 w ps i1 i2 [unfolded i12] ra fl nc q0])
                qed
              next
                case nD: False
                from nB nC have pe: "getPrecedence info2 = getPrecedence info1" by auto
                from nB nD pe have as: "getAssociativity info1 \<noteq> getAssociativity info2 \<or>
                    isNonAssociative info1"
                  by (cases info1; cases info2; cases "getAssociativity info1")
                     (auto simp: isLeftAssociative_def isRightAssociative_def isNonAssociative_def)
                define TC3 where "TC3 = (if isNonAssociative info1
                            then diagnose (addDiags TC n0) (AtExpr op1) non_assoc_adjacent
                          else if isNonAssociative info2
                            then diagnose (addDiags TC n0) (AtExpr Op2) non_assoc_adjacent
                          else diagnose (addDiags TC n0) (AtExpr op1) incompatible_assoc)"
                have TC3: "TC3 = addDiags TC (n0 @ [conflictDiag op1 info1 Op2 info2])"
                  by (simp add: TC3_def conflictDiag_def diagnose_def addDiags_def)
                note n12 = conflictOf_conflict [OF i1 i2 nc pe as]
                have eq: "foldLoop TC SF Op1 LHS RHS S M =
                    foldSequence TC3 SF (Some (foldedNode op1 L r)) S M"
                  unfolding Op1
                  by (subst foldLoop_conflict [OF br pe as])
                     (simp add: TC3_def [symmetric] mk)
                from "2.hyps"(7) [OF pre nA nB nC nD TC3_def mk, rule_format,
                    of "foldedNode op1 L r" ps]
                have w: "foldsWell SF (\<not> noLowerAfterCast SF (map fst ps)) M
                    (addDiags TC (n0 @ [conflictDiag op1 info1 Op2 info2]))
                    (foldedNode op1 L r) [] ps
                    (foldSequence TC3 SF (Some (foldedNode op1 L r)) S M)"
                  using S wf by (simp add: ps TC3)
                have sb: "filter isConflictDiag (n0 @ [conflictDiag op1 info1 Op2 info2]) =
                    option_list (conflictOf SF op1 Op2)"
                  by (simp add: n12 option_list_def q0 isConflictDiag_conflictDiag)
                from pe i1 i2 have d: "isaExplicitCastExpr op1 \<or> bindsNoTighter SF op1 Op2"
                  by (simp add: bindsNoTighter_def)
                show ?thesis
                  unfolding eq
                  by (rule foldsWell_mono
                        [OF foldsWell_folded_first [OF w ps i2 nA sb d] tl])
              qed
            qed
          qed
        qed
      qed
    qed
  qed
qed

lemma floorStops_zero: "floorStops SF (interleave ps) 0 \<Longrightarrow> ps = []"
  by (cases ps) (auto split: option.splits)

lemma top_level_well_formed:
  assumes "wellFormed SF pairs" and "pairs \<noteq> []"
  shows "(\<not> noLowerAfterCast SF (map fst pairs) \<and>
          TypeChecker_foldSequence TC SF (Some E0 # interleave pairs) = Inl NullPointer) \<or>
         (\<exists>t new. TypeChecker_foldSequence TC SF (Some E0 # interleave pairs) =
                     Inr (Some t, TC\<lparr>Diags := Diags TC @ new\<rparr>) \<and>
                   filter isConflictDiag new = levelConflicts SF (map fst pairs) \<and>
                   subseq (adjacentConflicts SF (map fst pairs)) new \<and>
                   isFoldOf t E0 pairs)"
proof -
  from fold_well_formed(1) [where LHS = "Some E0" and S = "interleave pairs" and M = 0
      and TC = TC and SF = SF, rule_format, OF refl refl assms(2,1)]
  have "foldsWell SF (\<not> noLowerAfterCast SF (map fst pairs)) 0 TC E0 [] pairs
      (foldSequence TC SF (Some E0) (interleave pairs) 0)" .
  then show ?thesis
  proof (cases rule: foldsWellE)
    case crash
    from assms(2) obtain pr rest where "pairs = pr # rest" by (cases pairs) auto
    with crash(2) even_length_interleave [of rest]
    have "TypeChecker_foldSequence TC SF (Some E0 # interleave pairs) = Inl NullPointer"
      by (cases pr) (simp add: TypeChecker_foldSequence_def)
    with crash(1) show ?thesis by simp
  next
    case (ok t cons ps' new)
    from floorStops_zero [OF ok(3)] have e: "ps' = []" .
    with ok(2) have c: "cons = pairs" by simp
    from ok(1) have "foldSequence TC SF (Some E0) (interleave pairs) 0 =
        Inr (Some t, [], addDiags TC new)" by (simp add: e)
    from top_level_fold [OF this assms(2)]
    have r: "TypeChecker_foldSequence TC SF (Some E0 # interleave pairs) =
        Inr (Some t, TC\<lparr>Diags := Diags TC @ new\<rparr>)" by (simp add: addDiags_def)
    from ok(5) have f: "filter isConflictDiag new = levelConflicts SF (map fst pairs)"
      by (simp add: c levelConflicts_def)
    have "subseq (adjacentConflicts SF (map fst pairs)) (filter isConflictDiag new)"
      unfolding f by (rule subseq_adjacent_levelConflicts)
    also have "subseq (filter isConflictDiag new) new" by simp
    finally have s: "subseq (adjacentConflicts SF (map fst pairs)) new" .
    from ok(6) have "isFoldOf t E0 pairs" by (simp add: c)
    with r f s show ?thesis by blast
  qed
qed

subsection \<open>Sequences in which all adjacent operators are in conflict\<close>

lemma foldLoop_conflict_chain:
  assumes "infixDataOf SF Op1 = Some info1" and "getPrecedence info1 \<noteq> 255"
    and "wellFormed SF ((Op1, E1) # rest)"
    and "conflictChain SF (Op1 # map fst rest)"
  shows "foldLoop TC SF (Some (Op1, info1)) (Some L) (Some E1) (interleave rest) 0 =
     Inr (Some (leftTree L ((Op1, E1) # rest)), [],
          addDiags TC (adjacentConflicts SF (Op1 # map fst rest)))"
  using assms
proof (induction rest arbitrary: Op1 info1 E1 L TC)
  case Nil
  then have "isaExplicitCastExpr Op1 \<longrightarrow> E1 = Op1" by (simp add: wellFormed_Cons)
  from makeBinOp_wellFormed [OF Nil.prems(1) this] show ?case
    by (simp add: foldLoop_Nil)
next
  case (Cons pr rest)
  obtain Op2 E2 where pr: "pr = (Op2, E2)" by (cases pr)
  from Cons.prems(3) pr obtain info2 where i2: "infixDataOf SF Op2 = Some info2"
    and c1: "isaExplicitCastExpr Op1 \<longrightarrow> E1 = Op1"
    and wf2: "wellFormed SF ((Op2, E2) # rest)"
    by (auto simp: wellFormed_Cons)
  from Cons.prems(4) pr have cf: "conflictOf SF Op1 Op2 \<noteq> None"
    and ch: "conflictChain SF (Op2 # map fst rest)" by simp_all
  from cf Cons.prems(1) i2 have nc: "\<not> isaExplicitCastExpr Op1"
    and pe: "getPrecedence info2 = getPrecedence info1"
    and as: "getAssociativity info1 \<noteq> getAssociativity info2 \<or> isNonAssociative info1"
    by (auto simp: conflictOf_def split: if_splits)
  from pe Cons.prems(2) have p2: "getPrecedence info2 \<noteq> 255" by simp
  note q2 = infixDataOf_quiet [OF i2 p2]
  note d = conflictOf_conflict [OF Cons.prems(1) i2 nc pe as]
  have S: "interleave (pr # rest) = Some Op2 # Some E2 # interleave rest"
    by (simp add: pr)
  have mk: "makeBinOp T (Some Op1) (Some L) (Some E1) = Inr (Some (foldedNode Op1 L E1))" for T
    by (rule makeBinOp_wellFormed [OF Cons.prems(1) c1])
  have t: "(if isNonAssociative info1 then diagnose TC (AtExpr Op1) non_assoc_adjacent
         else if isNonAssociative info2 then diagnose TC (AtExpr Op2) non_assoc_adjacent
         else diagnose TC (AtExpr Op1) incompatible_assoc) =
      addDiags TC [conflictDiag Op1 info1 Op2 info2]"
    by (simp add: conflictDiag_def diagnose_def addDiags_def)
  have "foldLoop TC SF (Some (Op1, info1)) (Some L) (Some E1) (interleave (pr # rest)) 0 =
      foldSequence (addDiags TC [conflictDiag Op1 info1 Op2 info2]) SF
        (Some (foldedNode Op1 L E1)) (interleave (pr # rest)) 0"
    by (subst foldLoop_conflict [OF _ _ _ nc _ q2 pe as])
       (simp_all add: S even_length_interleave t mk)
  also have "\<dots> = foldLoop (addDiags TC [conflictDiag Op1 info1 Op2 info2]) SF
        (Some (Op2, info2)) (Some (foldedNode Op1 L E1)) (Some E2) (interleave rest) 0"
    by (simp add: S foldSequence_Cons even_length_interleave q2)
  also note Cons.IH [OF i2 p2 wf2 ch]
  finally show ?case
    by (simp add: pr d option_list_def)
qed

lemma top_level_conflict_chain:
  assumes "infixDataOf SF Op1 = Some info1" and "getPrecedence info1 \<noteq> 255"
    and "wellFormed SF ((Op1, E1) # rest)"
    and "conflictChain SF (Op1 # map fst rest)"
  shows "TypeChecker_foldSequence TC SF (Some E0 # interleave ((Op1, E1) # rest)) =
     Inr (Some (leftTree E0 ((Op1, E1) # rest)),
          TC\<lparr>Diags := Diags TC @ adjacentConflicts SF (Op1 # map fst rest)\<rparr>)"
proof -
  note q1 = infixDataOf_quiet [OF assms(1,2)]
  have "foldSequence TC SF (Some E0) (interleave ((Op1, E1) # rest)) 0 =
      foldLoop TC SF (Some (Op1, info1)) (Some E0) (Some E1) (interleave rest) 0"
    by (simp add: foldSequence_Cons even_length_interleave q1)
  also note foldLoop_conflict_chain [OF assms]
  finally have "foldSequence TC SF (Some E0) (interleave ((Op1, E1) # rest)) 0 =
      Inr (Some (leftTree E0 ((Op1, E1) # rest)), [],
           addDiags TC (adjacentConflicts SF (Op1 # map fst rest)))" .
  from top_level_fold [OF this] show ?thesis
    by (simp add: addDiags_def)
qed

section \<open>Lemmas on types and captures\<close>

lemma getCanonicalType_weak:
  "getDesugaredType T = WeakStorageType R \<Longrightarrow>
     getCanonicalType T = WeakStorageType (getCanonicalType R)"
  by (induction T rule: getDesugaredType.induct) auto











section \<open>Properties of sequence folding\<close>

text \<open>
  C1. The claim: whenever the next operator is below the floor, folding stops and returns
  the accumulated left-hand side without consuming that operator, also right after a cast
  has been folded. The code at \<open>b as T = c\<close> folded with floor 91 (the right-hand side of
  an enclosing assignment): after the cast is folded the next operator \<open>=\<close> has
  precedence 90, below the floor, yet the loop consumes it and its operand and goes on
  with a null operator, instead of returning \<open>b as T\<close> with \<open>= c\<close> left in place.
\<close>

theorem foldSequence_after_cast_ignores_floor:
  "getNextOperator exTC exSF [Some exAssign, Some (exOperand ''c'')] 91 = Inr (None, exTC) \<and>
   foldSequence exTC exSF (Some (exOperand ''b''))
     [Some (exCast ''T''), Some (exCast ''T''), Some exAssign, Some (exOperand ''c'')] 91
   = Inl NullPointer"
  by (simp add: fold_eval ex_defs)

text \<open>
  C2. For an expression in operator position that has not been folded yet,
  \<^verbatim>\<open>getInfixData\<close> gives a ternary precedence 100 and right associativity, a cast
  precedence 95 and no associativity, and an assignment precedence 90 and right
  associativity, with no diagnostic. For every node that is neither a declaration
  reference nor an overloaded declaration reference the result is the same for every
  source file, so operator lookup is not consulted; the two kinds of declaration
  reference return what lookup finds for the name, and the diagnosed recovery otherwise.
\<close>

theorem getInfixData_pseudo_operators:
  "(\<not> isFolded (IfExpr c t e) \<longrightarrow>
      getInfixData TC SF (Some (Expr i (IfExpr c t e))) = Inr (InfixData 100 AssocRight, TC)) \<and>
   (\<not> isFolded (ExplicitCastExpr sub forceLoc ty) \<longrightarrow>
      getInfixData TC SF (Some (Expr i (ExplicitCastExpr sub forceLoc ty))) =
        Inr (InfixData 95 AssocNone, TC)) \<and>
   (\<not> isFolded (AssignExpr d s) \<longrightarrow>
      getInfixData TC SF (Some (Expr i (AssignExpr d s))) = Inr (InfixData 90 AssocRight, TC)) \<and>
   ((\<forall>D. K \<noteq> DeclRefExpr D) \<and> (\<forall>Ds. K \<noteq> OverloadedDeclRefExpr Ds) \<longrightarrow>
      getInfixData TC SF (Some (Expr i K)) = getInfixData TC SF' (Some (Expr i K))) \<and>
   getInfixData TC SF (Some (Expr i (DeclRefExpr D))) =
     (case lookupInfixOperator SF (getName D) (Expr i (DeclRefExpr D)) of
        Some info \<Rightarrow> Inr (info, TC)
      | None \<Rightarrow> Inr (InfixData 255 AssocLeft,
                    diagnose TC (AtExpr (Expr i (DeclRefExpr D))) unknown_binop)) \<and>
   getInfixData TC SF (Some (Expr i (OverloadedDeclRefExpr (D # Ds)))) =
     (case lookupInfixOperator SF (getName D) (Expr i (OverloadedDeclRefExpr (D # Ds))) of
        Some info \<Rightarrow> Inr (info, TC)
      | None \<Rightarrow> Inr (InfixData 255 AssocLeft,
                    diagnose TC (AtExpr (Expr i (OverloadedDeclRefExpr (D # Ds)))) unknown_binop))"
proof (intro conjI impI)
  assume "(\<forall>D. K \<noteq> DeclRefExpr D) \<and> (\<forall>Ds. K \<noteq> OverloadedDeclRefExpr Ds)"
  then show "getInfixData TC SF (Some (Expr i K)) = getInfixData TC SF' (Some (Expr i K))"
    by (cases K) (simp_all add: getInfixData_def)
qed (simp_all add: getInfixData_def unknownBinop_def split: option.splits)

text \<open>
  The three pseudo-operators as the parser builds them, an operand in operator position
  under two different operator tables, and the declared operator \<open>+\<close>.
\<close>

theorem getInfixData_pseudo_operators_witness:
  "getInfixData exTC exSF (Some (Expr False (IfExpr None (Some (exOperand ''t'')) None))) =
     Inr (InfixData 100 AssocRight, exTC) \<and>
   getInfixData exTC exSF (Some (exCast ''T'')) = Inr (InfixData 95 AssocNone, exTC) \<and>
   getInfixData exTC exSF (Some exAssign) = Inr (InfixData 90 AssocRight, exTC) \<and>
   getInfixData exTC exSF (Some (exOperand ''x'')) =
     getInfixData exTC \<lparr>lookupInfixOperator = (\<lambda>name E. Some (InfixData 1 AssocLeft))\<rparr>
       (Some (exOperand ''x'')) \<and>
   getInfixData exTC exSF (Some (exOperator ''+'')) = Inr (InfixData 140 AssocLeft, exTC)"
  using getInfixData_pseudo_operators [where c = None and t = "Some (exOperand ''t'')"
      and e = None and TC = exTC and SF = exSF and i = False and sub = None
      and forceLoc = None and ty = "NominalType ''T''" and d = None and s = None
      and K = "OtherExpr ''x'' []"
      and SF' = "\<lparr>lookupInfixOperator = (\<lambda>name E. Some (InfixData 1 AssocLeft))\<rparr>"
      and D = "\<lparr>getName = ''+'', getDeclContext = exModule, isVarDecl = False,
                 getType = ErrorType, getInterfaceType = ErrorType\<rparr>"
      and Ds = "[]"]
  by (simp add: ex_defs)

text \<open>
  C3. The claim: in every sequence in which a cast is followed by its type operand and
  then by an operator of precedence below 95, folding binds the cast to exactly its
  subject and its type, and a forced cast folds to a force-unwrap around the cast. The
  code at \<open>a = b as! T = c\<close>: the second \<open>=\<close> has precedence 90, and
  \<^verbatim>\<open>makeBinOp\<close> on the cast, \<open>b\<close> and the type operand does give \<open>(b as T)!\<close>; but
  the fold of the sequence, which makes this call in the recursion for the right-hand side
  of the first assignment, then goes on with the null operator fetched after the cast and
  fails, so no tree with \<open>(b as T)!\<close> is produced. The sequence \<open>b as! T = c\<close> alone,
  folded with floor 0, gives the assignment of \<open>c\<close> to \<open>(b as T)!\<close>, as the claim says.
\<close>

theorem foldSequence_forced_cast_then_lower_operator:
  "getInfixData exTC exSF (Some exAssign) = Inr (InfixData 90 AssocRight, exTC) \<and>
   makeBinOp exTC (Some (exForcedCast ''T'')) (Some (exOperand ''b''))
       (Some (exForcedCast ''T'')) =
     Inr (Some (Expr False (ForceValueExpr
       (Expr False (ExplicitCastExpr (Some (exOperand ''b'')) None (NominalType ''T'')))
       (Some 7)))) \<and>
   TypeChecker_foldSequence exTC exSF
     [Some (exOperand ''b''), Some (exForcedCast ''T''), Some (exForcedCast ''T''),
      Some exAssign, Some (exOperand ''c'')] =
   Inr (Some (Expr False (AssignExpr
          (Some (Expr False (ForceValueExpr
             (Expr False (ExplicitCastExpr (Some (exOperand ''b'')) None (NominalType ''T'')))
             (Some 7))))
          (Some (exOperand ''c'')))), exTC) \<and>
   TypeChecker_foldSequence exTC exSF
     [Some (exOperand ''a''), Some exAssign, Some (exOperand ''b''),
      Some (exForcedCast ''T''), Some (exForcedCast ''T''), Some exAssign,
      Some (exOperand ''c'')] =
   Inl NullPointer"
  by (simp add: fold_eval ex_defs)

text \<open>
  C4. A sequence of \<open>n + 1\<close> operands and \<open>n \<ge> 1\<close> operators that all have the same
  right-associative infix attributes folds to the right-leaning chain of depth \<open>n\<close>:
  the node of the first operator is the root, its left operand is the first operand, and
  its right operand is the chain of everything to its right. No diagnostic is emitted.
\<close>

theorem foldSequence_right_associative_chain:
  assumes "pairs \<noteq> []"
    and "\<forall>(Op, E) \<in> set pairs. infixDataOf SF Op = Some info"
    and "isRightAssociative info"
  shows "TypeChecker_foldSequence TC SF (Some E0 # interleave pairs) =
           Inr (Some (rightTree E0 pairs), TC)"
proof -
  have "\<not> (ucast (getPrecedence info) :: 32 word) < 0" by simp
  from foldSequence_right_tree [OF assms(2,3) this assms(1), of TC E0]
  show ?thesis by (rule top_level_fold [OF _ assms(1)])
qed

text \<open>
  The sequence \<open>a ** b ** c\<close> folds to \<open>a ** (b ** c)\<close>.
\<close>

theorem foldSequence_right_associative_chain_witness:
  "rightTree (exOperand ''a'')
     [(exOperator ''**'', exOperand ''b''), (exOperator ''**'', exOperand ''c'')] =
   Expr False (BinaryExpr (exOperator ''**'')
          (Expr False (TupleExpr
             [exOperand ''a'',
              Expr False (BinaryExpr (exOperator ''**'')
                (Expr False (TupleExpr [exOperand ''b'', exOperand ''c''])))]))) \<and>
   TypeChecker_foldSequence exTC exSF
     [Some (exOperand ''a''), Some (exOperator ''**''), Some (exOperand ''b''),
      Some (exOperator ''**''), Some (exOperand ''c'')] =
   Inr (Some (Expr False (BinaryExpr (exOperator ''**'')
          (Expr False (TupleExpr
             [exOperand ''a'',
              Expr False (BinaryExpr (exOperator ''**'')
                (Expr False (TupleExpr [exOperand ''b'', exOperand ''c''])))])))), exTC)"
  using foldSequence_right_associative_chain [where
      pairs = "[(exOperator ''**'', exOperand ''b''), (exOperator ''**'', exOperand ''c'')]"
      and SF = exSF and info = "InfixData 160 AssocRight" and TC = exTC
      and ?E0.0 = "exOperand ''a''"]
  by (simp add: ex_defs chain_eval)

text \<open>
  C5, as stated: with strictly decreasing precedence each operator would be the root of
  everything to its right. The sequence \<open>a * b + c\<close> has strictly decreasing precedence
  (150, then 140); the tree in which each operator is the root of everything to its right
  is \<open>a * (b + c)\<close>, and the fold returns \<open>(a * b) + c\<close>.
\<close>

theorem foldSequence_decreasing_counterexample:
  "strictlyDecreasing exSF
     [(exOperator ''*'', exOperand ''b''), (exOperator ''+'', exOperand ''c'')] \<and>
   rightTree (exOperand ''a'')
     [(exOperator ''*'', exOperand ''b''), (exOperator ''+'', exOperand ''c'')] =
   Expr False (BinaryExpr (exOperator ''*'')
          (Expr False (TupleExpr
             [exOperand ''a'',
              Expr False (BinaryExpr (exOperator ''+'')
                (Expr False (TupleExpr [exOperand ''b'', exOperand ''c''])))]))) \<and>
   TypeChecker_foldSequence exTC exSF
     [Some (exOperand ''a''), Some (exOperator ''*''), Some (exOperand ''b''),
      Some (exOperator ''+''), Some (exOperand ''c'')] =
   Inr (Some (Expr False (BinaryExpr (exOperator ''+'')
          (Expr False (TupleExpr
             [Expr False (BinaryExpr (exOperator ''*'')
                (Expr False (TupleExpr [exOperand ''a'', exOperand ''b''])))
              , exOperand ''c''])))), exTC) \<and>
   TypeChecker_foldSequence exTC exSF
     [Some (exOperand ''a''), Some (exOperator ''*''), Some (exOperand ''b''),
      Some (exOperator ''+''), Some (exOperand ''c'')] \<noteq>
   Inr (Some (rightTree (exOperand ''a'')
          [(exOperator ''*'', exOperand ''b''), (exOperator ''+'', exOperand ''c'')]), exTC)"
  by (simp add: ex_defs chain_eval fold_eval)

text \<open>
  C5, amended. A sequence whose operators have strictly decreasing precedence folds to
  the left-leaning tree: every operator node has the fold of everything to its left as
  left operand and the operand that follows it as right operand, and the last operator is
  the root. This is the result for every sequence as the parser builds it; when the
  operand that follows a cast is not the cast node itself, the assertion of the cast fold
  fails. The only diagnostic possible is the one that \<^verbatim>\<open>getInfixData\<close> gives for the
  first operator, when it is unknown.
\<close>

theorem foldSequence_decreasing_left_leaning:
  assumes "strictlyDecreasing SF ((Op1, E1) # rest)"
  shows "\<exists>info1 TC1. getInfixData TC SF (Some Op1) = Inr (info1, TC1) \<and>
     TypeChecker_foldSequence TC SF (Some E0 # interleave ((Op1, E1) # rest)) =
       (if wellFormed SF ((Op1, E1) # rest)
        then Inr (Some (leftTree E0 ((Op1, E1) # rest)), TC1)
        else Inl AssertionFailure)"
proof -
  from assms obtain info1 where i1: "infixDataOf SF Op1 = Some info1"
    by (cases rest) (auto split: option.splits)
  from infixDataOf_getInfixData [OF i1] obtain TC1 where
    gi: "getInfixData TC SF (Some Op1) = Inr (info1, TC1)" by blast
  have "foldSequence TC SF (Some E0) (interleave ((Op1, E1) # rest)) 0 =
      foldLoop TC1 SF (Some (Op1, info1)) (Some E0) (Some E1) (interleave rest) 0"
    by (simp add: foldSequence_Cons even_length_interleave gi)
  also note foldLoop_decreasing [OF i1 assms]
  finally have "foldSequence TC SF (Some E0) (interleave ((Op1, E1) # rest)) 0 =
      (if wellFormed SF ((Op1, E1) # rest)
        then Inr (Some (leftTree E0 ((Op1, E1) # rest)), [], TC1)
        else Inl AssertionFailure)" .
  then have "TypeChecker_foldSequence TC SF (Some E0 # interleave ((Op1, E1) # rest)) =
       (if wellFormed SF ((Op1, E1) # rest)
        then Inr (Some (leftTree E0 ((Op1, E1) # rest)), TC1)
        else Inl AssertionFailure)"
    using even_length_interleave [of rest]
    by (simp add: TypeChecker_foldSequence_def split: sum.splits)
  with gi show ?thesis by blast
qed

text \<open>
  The sequence \<open>a * b + c\<close> folds to \<open>(a * b) + c\<close>.
\<close>

theorem foldSequence_decreasing_left_leaning_witness:
  "strictlyDecreasing exSF
     [(exOperator ''*'', exOperand ''b''), (exOperator ''+'', exOperand ''c'')] \<and>
   wellFormed exSF
     [(exOperator ''*'', exOperand ''b''), (exOperator ''+'', exOperand ''c'')] \<and>
   leftTree (exOperand ''a'')
     [(exOperator ''*'', exOperand ''b''), (exOperator ''+'', exOperand ''c'')] =
   Expr False (BinaryExpr (exOperator ''+'')
          (Expr False (TupleExpr
             [Expr False (BinaryExpr (exOperator ''*'')
                (Expr False (TupleExpr [exOperand ''a'', exOperand ''b''])))
              , exOperand ''c'']))) \<and>
   TypeChecker_foldSequence exTC exSF
     [Some (exOperand ''a''), Some (exOperator ''*''), Some (exOperand ''b''),
      Some (exOperator ''+''), Some (exOperand ''c'')] =
   Inr (Some (Expr False (BinaryExpr (exOperator ''+'')
          (Expr False (TupleExpr
             [Expr False (BinaryExpr (exOperator ''*'')
                (Expr False (TupleExpr [exOperand ''a'', exOperand ''b''])))
              , exOperand ''c''])))), exTC)"
  using foldSequence_decreasing_left_leaning [where SF = exSF and TC = exTC
      and ?Op1.0 = "exOperator ''*''" and ?E1.0 = "exOperand ''b''"
      and rest = "[(exOperator ''+'', exOperand ''c'')]" and ?E0.0 = "exOperand ''a''"]
  by (simp add: ex_defs chain_eval conflict_eval)

text \<open>
  C6, as stated: every two adjacent operators of equal precedence with mismatched or no
  associativity are diagnosed. Two adjacent casts have precedence 95 and no
  associativity, and \<open>a as T as U\<close> folds to \<open>(a as T) as U\<close> with no diagnostic: the cast
  step comes before the comparison of the two operators.
\<close>

theorem foldSequence_adjacent_casts_counterexample:
  "getInfixData exTC exSF (Some (exCast ''T'')) = Inr (InfixData 95 AssocNone, exTC) \<and>
   getInfixData exTC exSF (Some (exCast ''U'')) = Inr (InfixData 95 AssocNone, exTC) \<and>
   Diags exTC = [] \<and>
   TypeChecker_foldSequence exTC exSF
     [Some (exOperand ''a''), Some (exCast ''T''), Some (exCast ''T''),
      Some (exCast ''U''), Some (exCast ''U'')] =
   Inr (Some (Expr False (ExplicitCastExpr
          (Some (Expr False (ExplicitCastExpr (Some (exOperand ''a'')) None (NominalType ''T''))))
          None (NominalType ''U''))), exTC)"
  by (simp add: ex_defs fold_eval)

text \<open>
  C6, amended. Only the adjacencies whose first operator is not a cast are diagnosed.
  For every sequence as the parser builds it, with the entry point
  \<^verbatim>\<open>TypeChecker::foldSequence\<close>: unless the fold fails at the null operator that the
  cast step leaves unchecked, which needs a cast followed by an operator of precedence
  below 95, it returns a tree that is not null, built from all the operands and operators
  of the sequence in their order, and the diagnostics of a conflict among those it adds
  are exactly the ones of \<open>levelConflicts\<close>: one for every two operators in conflict
  that are adjacent, or that become adjacent when the operators between them, which bind
  tighter, are folded. In particular they contain, in the order of the sequence, one
  diagnostic for each adjacency of the sequence, of the non-associative-adjacency kind
  when either operator is non-associative and of the incompatible-associativity kind
  otherwise. The step of the loop that compares the two operators adds exactly this one
  diagnostic to what looking up the second operator reported, folds the first pair and
  restarts on the remaining slice with the same floor. When every two adjacent operators of
  a sequence of known operators are in conflict, the diagnostics added are exactly these,
  one for each adjacency, and the tree is the left-leaning one. The fold is a total
  function.
\<close>

theorem foldSequence_associativity_conflict:
  "(wellFormed SF pairs \<and> pairs \<noteq> [] \<longrightarrow>
      (\<not> noLowerAfterCast SF (map fst pairs) \<and>
       TypeChecker_foldSequence TC SF (Some E0 # interleave pairs) = Inl NullPointer) \<or>
      (\<exists>t new. TypeChecker_foldSequence TC SF (Some E0 # interleave pairs) =
                  Inr (Some t, TC\<lparr>Diags := Diags TC @ new\<rparr>) \<and>
                filter isConflictDiag new = levelConflicts SF (map fst pairs) \<and>
                subseq (adjacentConflicts SF (map fst pairs)) new \<and>
                isFoldOf t E0 pairs)) \<and>
   (S \<noteq> [] \<and> even (length S) \<and> \<not> ucast (getPrecedence info1) < M \<and>
    infixDataOf SF Op1 = Some info1 \<and> \<not> isaExplicitCastExpr Op1 \<and> S ! 0 = Some Op2 \<and>
    getInfixData TC SF (Some Op2) = Inr (info2, TC2) \<and>
    getPrecedence info2 = getPrecedence info1 \<and>
    (getAssociativity info1 \<noteq> getAssociativity info2 \<or> isNonAssociative info1)
    \<longrightarrow>
    foldLoop TC SF (Some (Op1, info1)) (Some L) (Some R) S M =
      foldSequence (TC2\<lparr>Diags := Diags TC2 @ [conflictDiag Op1 info1 Op2 info2]\<rparr>) SF
        (Some (foldedNode Op1 L R)) S M) \<and>
   (infixDataOf SF Op1 = Some info1 \<and> getPrecedence info1 \<noteq> 255 \<and>
    wellFormed SF ((Op1, E1) # rest) \<and> conflictChain SF (Op1 # map fst rest)
    \<longrightarrow>
    TypeChecker_foldSequence TC SF (Some E0 # interleave ((Op1, E1) # rest)) =
      Inr (Some (leftTree E0 ((Op1, E1) # rest)),
           TC\<lparr>Diags := Diags TC @ adjacentConflicts SF (Op1 # map fst rest)\<rparr>))"
proof (intro conjI impI)
  assume "wellFormed SF pairs \<and> pairs \<noteq> []"
  then show "(\<not> noLowerAfterCast SF (map fst pairs) \<and>
       TypeChecker_foldSequence TC SF (Some E0 # interleave pairs) = Inl NullPointer) \<or>
      (\<exists>t new. TypeChecker_foldSequence TC SF (Some E0 # interleave pairs) =
                  Inr (Some t, TC\<lparr>Diags := Diags TC @ new\<rparr>) \<and>
                filter isConflictDiag new = levelConflicts SF (map fst pairs) \<and>
                subseq (adjacentConflicts SF (map fst pairs)) new \<and>
                isFoldOf t E0 pairs)"
    using top_level_well_formed by blast
next
  assume a: "S \<noteq> [] \<and> even (length S) \<and> \<not> ucast (getPrecedence info1) < M \<and>
    infixDataOf SF Op1 = Some info1 \<and> \<not> isaExplicitCastExpr Op1 \<and> S ! 0 = Some Op2 \<and>
    getInfixData TC SF (Some Op2) = Inr (info2, TC2) \<and>
    getPrecedence info2 = getPrecedence info1 \<and>
    (getAssociativity info1 \<noteq> getAssociativity info2 \<or> isNonAssociative info1)"
  then have "foldLoop TC SF (Some (Op1, info1)) (Some L) (Some R) S M =
     (let TC3 =
        (if isNonAssociative info1 then diagnose TC2 (AtExpr Op1) non_assoc_adjacent
         else if isNonAssociative info2 then diagnose TC2 (AtExpr Op2) non_assoc_adjacent
         else diagnose TC2 (AtExpr Op1) incompatible_assoc)
      in (case makeBinOp TC3 (Some Op1) (Some L) (Some R) of
            Inl err \<Rightarrow> Inl err
          | Inr LHS' \<Rightarrow> foldSequence TC3 SF LHS' S M))"
    by (intro foldLoop_conflict) simp_all
  moreover have "(if isNonAssociative info1 then diagnose TC2 (AtExpr Op1) non_assoc_adjacent
         else if isNonAssociative info2 then diagnose TC2 (AtExpr Op2) non_assoc_adjacent
         else diagnose TC2 (AtExpr Op1) incompatible_assoc) =
      TC2\<lparr>Diags := Diags TC2 @ [conflictDiag Op1 info1 Op2 info2]\<rparr>"
    by (simp add: conflictDiag_def diagnose_def)
  moreover from a have "makeBinOp T (Some Op1) (Some L) (Some R) =
      Inr (Some (foldedNode Op1 L R))" for T
    by (intro makeBinOp_wellFormed [where info = info1 and SF = SF]) simp_all
  ultimately show "foldLoop TC SF (Some (Op1, info1)) (Some L) (Some R) S M =
      foldSequence (TC2\<lparr>Diags := Diags TC2 @ [conflictDiag Op1 info1 Op2 info2]\<rparr>) SF
        (Some (foldedNode Op1 L R)) S M"
    by (simp only: Let_def sum.case)
next
  assume "infixDataOf SF Op1 = Some info1 \<and> getPrecedence info1 \<noteq> 255 \<and>
    wellFormed SF ((Op1, E1) # rest) \<and> conflictChain SF (Op1 # map fst rest)"
  then show "TypeChecker_foldSequence TC SF (Some E0 # interleave ((Op1, E1) # rest)) =
      Inr (Some (leftTree E0 ((Op1, E1) # rest)),
           TC\<lparr>Diags := Diags TC @ adjacentConflicts SF (Op1 # map fst rest)\<rparr>)"
    using top_level_conflict_chain by blast
qed

text \<open>
  The sequence \<open>a < b < c\<close> with the non-associative \<open><\<close>: the conflict is diagnosed
  once, and the fold recovers with \<open>(a < b) < c\<close>.
\<close>

theorem foldSequence_associativity_conflict_witness:
  "wellFormed exSF [(exOperator ''<'', exOperand ''b''), (exOperator ''<'', exOperand ''c'')] \<and>
   conflictChain exSF [exOperator ''<'', exOperator ''<''] \<and>
   adjacentConflicts exSF [exOperator ''<'', exOperator ''<''] =
     [(AtExpr (exOperator ''<''), non_assoc_adjacent)] \<and>
   levelConflicts exSF [exOperator ''<'', exOperator ''<''] =
     [(AtExpr (exOperator ''<''), non_assoc_adjacent)] \<and>
   foldLoop exTC exSF (Some (exOperator ''<'', InfixData 130 AssocNone))
     (Some (exOperand ''a'')) (Some (exOperand ''b''))
     [Some (exOperator ''<''), Some (exOperand ''c'')] 0 =
   foldSequence (exTC\<lparr>Diags := [(AtExpr (exOperator ''<''), non_assoc_adjacent)]\<rparr>) exSF
     (Some (Expr False (BinaryExpr (exOperator ''<'')
        (Expr False (TupleExpr [exOperand ''a'', exOperand ''b''])))))
     [Some (exOperator ''<''), Some (exOperand ''c'')] 0 \<and>
   TypeChecker_foldSequence exTC exSF
     [Some (exOperand ''a''), Some (exOperator ''<''), Some (exOperand ''b''),
      Some (exOperator ''<''), Some (exOperand ''c'')] =
   Inr (Some (Expr False (BinaryExpr (exOperator ''<'')
          (Expr False (TupleExpr
             [Expr False (BinaryExpr (exOperator ''<'')
                (Expr False (TupleExpr [exOperand ''a'', exOperand ''b''])))
              , exOperand ''c''])))),
        exTC\<lparr>Diags := [(AtExpr (exOperator ''<''), non_assoc_adjacent)]\<rparr>)"
  using foldSequence_associativity_conflict [where
      pairs = "[(exOperator ''<'', exOperand ''b''), (exOperator ''<'', exOperand ''c'')]"
      and S = "[Some (exOperator ''<''), Some (exOperand ''c'')]"
      and ?info1.0 = "InfixData 130 AssocNone" and M = 0 and ?Op1.0 = "exOperator ''<''"
      and ?Op2.0 = "exOperator ''<''" and TC = exTC and SF = exSF
      and ?info2.0 = "InfixData 130 AssocNone" and ?TC2.0 = exTC
      and L = "exOperand ''a''" and R = "exOperand ''b''"
      and ?E0.0 = "exOperand ''a''" and ?E1.0 = "exOperand ''b''"
      and rest = "[(exOperator ''<'', exOperand ''c'')]"]
  by (simp add: ex_defs chain_eval conflict_eval)

text \<open>
  C10. The claim: the operator re-fetched after a cast has been folded is at or above
  the floor, so the loop never goes on with a null operator. Folding
  \<open>a = b as T = c\<close>, the recursive call for the right-hand side of the first assignment
  runs with floor 91; after the cast the re-fetched operator \<open>=\<close> is below the floor, the
  loop state gets the null operator, and the fold ends in a null dereference.
\<close>

theorem foldSequence_null_operator_after_cast:
  "foldLoop exTC exSF (Some (exCast ''T'', InfixData 95 AssocNone))
     (Some (exOperand ''b'')) (Some (exCast ''T''))
     [Some exAssign, Some (exOperand ''c'')] 91 =
   foldLoop exTC exSF None
     (Some (Expr False (ExplicitCastExpr (Some (exOperand ''b'')) None (NominalType ''T''))))
     (Some (exOperand ''c'')) [] 91 \<and>
   TypeChecker_foldSequence exTC exSF
     [Some (exOperand ''a''), Some exAssign, Some (exOperand ''b''),
      Some (exCast ''T''), Some (exCast ''T''), Some exAssign, Some (exOperand ''c'')] =
   Inl NullPointer"
  by (simp add: fold_eval ex_defs)

section \<open>Properties of reference classification\<close>

text \<open>
  C7, as stated: through a pass-by-value rvalue receiver a settable variable would be
  mutable only when it has a non-mutating setter. A static variable is classified
  mutable before the receiver is looked at, also with a mutating setter.
\<close>

theorem reference_mutability_counterexample:
  "var_isSettable exStaticVar exModule \<and>
   \<not> exValueSemantics exStruct \<and> \<not> isLValueType exStruct \<and>
   var_getSetter exStaticVar = Some \<lparr>isMutating = True\<rparr> \<and>
   doesVarDeclMemberProduceLValue exValueSemantics exStaticVar (Some exStruct) exModule"
  by (simp add: exStaticVar_def exValueSemantics_def exStruct_def isLValueType_def
        doesVarDeclMemberProduceLValue_def)

text \<open>
  C7, amended. A settable variable referenced through a receiver with reference
  semantics or of lvalue type is mutable. A settable static variable is mutable whatever
  its receiver and its setter are. A settable variable that is not static, referenced
  through a receiver that has neither reference semantics nor lvalue type, is mutable
  exactly when it has a setter and the setter is non-mutating. A settable subscript
  referenced through such a receiver is mutable exactly when both its getter and its
  setter are non-mutating, and through a receiver with reference semantics or of lvalue
  type it is mutable. A variable or subscript that is not settable is never mutable.
\<close>

theorem reference_mutability:
  "(var_isSettable VD UseDC \<and> (hasReferenceSemantics base \<or> isLValueType base) \<longrightarrow>
      doesVarDeclMemberProduceLValue hasReferenceSemantics VD (Some base) UseDC) \<and>
   (var_isSettable VD UseDC \<and> var_isStatic VD \<longrightarrow>
      doesVarDeclMemberProduceLValue hasReferenceSemantics VD baseType UseDC) \<and>
   (var_isSettable VD UseDC \<and> \<not> var_isStatic VD \<and>
    \<not> hasReferenceSemantics base \<and> \<not> isLValueType base \<longrightarrow>
      doesVarDeclMemberProduceLValue hasReferenceSemantics VD (Some base) UseDC =
        (\<exists>setter. var_getSetter VD = Some setter \<and> \<not> isMutating setter)) \<and>
   (sub_isSettable SD \<and> \<not> hasReferenceSemantics base \<and> \<not> isLValueType base \<and>
    sub_getGetter SD = Some getter \<and> sub_getSetter SD = Some setter' \<longrightarrow>
      doesSubscriptDeclProduceLValue hasReferenceSemantics SD (Some base) =
        Inr (\<not> isMutating getter \<and> \<not> isMutating setter')) \<and>
   (sub_isSettable SD \<and> (hasReferenceSemantics base \<or> isLValueType base) \<longrightarrow>
      doesSubscriptDeclProduceLValue hasReferenceSemantics SD (Some base) = Inr True) \<and>
   (\<not> var_isSettable VD UseDC \<longrightarrow>
      \<not> doesVarDeclMemberProduceLValue hasReferenceSemantics VD baseType UseDC) \<and>
   (\<not> sub_isSettable SD \<longrightarrow>
      doesSubscriptDeclProduceLValue hasReferenceSemantics SD (Some base) = Inr False)"
  by (auto simp: doesVarDeclMemberProduceLValue_def doesSubscriptDeclProduceLValue_def
        split: option.splits)

text \<open>
  A computed variable with a non-mutating setter through a reference-type receiver and
  through a struct, a computed variable with a mutating setter through a struct, a static
  variable with a mutating setter through a struct, and a subscript with a mutating setter
  through a struct.
\<close>

theorem reference_mutability_witness:
  "doesVarDeclMemberProduceLValue (\<lambda>T. True) exComputedVar (Some exStruct) exModule \<and>
   doesVarDeclMemberProduceLValue exValueSemantics exComputedVar (Some exStruct) exModule \<and>
   \<not> doesVarDeclMemberProduceLValue exValueSemantics exMutatingVar (Some exStruct) exModule \<and>
   doesVarDeclMemberProduceLValue (\<lambda>T. True) exMutatingVar (Some exStruct) exModule \<and>
   doesVarDeclMemberProduceLValue exValueSemantics exStaticVar (Some exStruct) exModule \<and>
   doesSubscriptDeclProduceLValue exValueSemantics exSubscript (Some exStruct) = Inr False"
  using reference_mutability [where VD = exComputedVar and UseDC = exModule
      and hasReferenceSemantics = "\<lambda>T. True" and base = exStruct and SD = exSubscript
      and getter = "\<lparr>isMutating = False\<rparr>" and setter' = "\<lparr>isMutating = True\<rparr>"]
    reference_mutability [where VD = exComputedVar and UseDC = exModule
      and hasReferenceSemantics = exValueSemantics and base = exStruct and SD = exSubscript
      and getter = "\<lparr>isMutating = False\<rparr>" and setter' = "\<lparr>isMutating = True\<rparr>"]
    reference_mutability [where VD = exMutatingVar and UseDC = exModule
      and hasReferenceSemantics = exValueSemantics and base = exStruct]
    reference_mutability [where VD = exMutatingVar and UseDC = exModule
      and hasReferenceSemantics = "\<lambda>T. True" and base = exStruct]
    reference_mutability [where VD = exStaticVar and UseDC = exModule
      and hasReferenceSemantics = exValueSemantics and baseType = "Some exStruct"]
  by (simp add: exComputedVar_def exMutatingVar_def exStaticVar_def exSubscript_def
        exValueSemantics_def exStruct_def isLValueType_def)

section \<open>Properties of the rvalue type\<close>

text \<open>
  C9, as stated: when the optional intrinsics are unavailable the referent type would be
  substituted. For a weak \<open>Delegate\<close> with the optional type available and the intrinsics
  missing, the result is still \<open>Optional<Delegate>\<close>, with the diagnostic.
\<close>

theorem getTypeOfRValue_weak_counterexample:
  "getCanonicalType (getType exWeakDecl) = WeakStorageType (NominalType ''Delegate'') \<and>
   \<not> hasOptionalIntrinsics (exTC\<lparr>hasOptionalIntrinsics := False\<rparr>) \<and>
   getTypeOfRValue exGetOptionalType (exTC\<lparr>hasOptionalIntrinsics := False\<rparr>) exWeakDecl False =
     Inr (OptionalType (NominalType ''Delegate''),
          \<lparr>Diags = [(AtDecl exWeakDecl, optional_intrinsics_not_found)],
           hasOptionalIntrinsics = False\<rparr>)"
  by (simp add: exWeakDecl_def exGetOptionalType_def exTC_def exModule_def getTypeOfRValue_def
        requireOptionalIntrinsics_def diagnose_def)

text \<open>
  C9, amended. For a declaration whose type is weak storage of \<open>T\<close>: when the optional
  type of \<open>T\<close> can be built it is the result, and the missing-intrinsics diagnostic is
  added exactly when the optional intrinsics are unavailable; when the optional type
  cannot be built the result is \<open>T\<close> itself, with only the diagnostics of the failed
  construction. The result is never an error or null.
\<close>

theorem getTypeOfRValue_weak:
  assumes "getDesugaredType (if wantInterfaceType then getInterfaceType val else getType val)
             = WeakStorageType refTy"
  shows "(getOptionalType TC (AtDecl val) refTy = (Some optTy, TC1) \<longrightarrow>
            getTypeOfRValue getOptionalType TC val wantInterfaceType =
              Inr (optTy,
                   if hasOptionalIntrinsics TC1 then TC1
                   else diagnose TC1 (AtDecl val) optional_intrinsics_not_found)) \<and>
         (getOptionalType TC (AtDecl val) refTy = (None, TC1) \<longrightarrow>
            getTypeOfRValue getOptionalType TC val wantInterfaceType = Inr (refTy, TC1))"
  using assms getCanonicalType_weak [OF assms]
  by (auto simp: getTypeOfRValue_def Let_def requireOptionalIntrinsics_def)

text \<open>
  The weak variable with the intrinsics present, with the intrinsics missing, and with
  no optional type.
\<close>

theorem getTypeOfRValue_weak_witness:
  "getTypeOfRValue exGetOptionalType exTC exWeakDecl False =
     Inr (OptionalType (NominalType ''Delegate''), exTC) \<and>
   getTypeOfRValue exGetOptionalType (exTC\<lparr>hasOptionalIntrinsics := False\<rparr>) exWeakDecl True =
     Inr (OptionalType (NominalType ''Delegate''),
          \<lparr>Diags = [(AtDecl exWeakDecl, optional_intrinsics_not_found)],
           hasOptionalIntrinsics = False\<rparr>) \<and>
   getTypeOfRValue exNoOptionalType exTC exWeakDecl False =
     Inr (NominalType ''Delegate'', exTC)"
  using getTypeOfRValue_weak [where wantInterfaceType = False and val = exWeakDecl
      and refTy = "NominalType ''Delegate''" and getOptionalType = exGetOptionalType
      and TC = exTC and optTy = "OptionalType (NominalType ''Delegate'')" and ?TC1.0 = exTC]
    getTypeOfRValue_weak [where wantInterfaceType = True and val = exWeakDecl
      and refTy = "NominalType ''Delegate''" and getOptionalType = exGetOptionalType
      and TC = "exTC\<lparr>hasOptionalIntrinsics := False\<rparr>"
      and optTy = "OptionalType (NominalType ''Delegate'')"
      and ?TC1.0 = "exTC\<lparr>hasOptionalIntrinsics := False\<rparr>"]
    getTypeOfRValue_weak [where wantInterfaceType = False and val = exWeakDecl
      and refTy = "NominalType ''Delegate''" and getOptionalType = exNoOptionalType
      and TC = exTC and optTy = "OptionalType (NominalType ''Delegate'')" and ?TC1.0 = exTC]
  by (simp add: exWeakDecl_def exGetOptionalType_def exNoOptionalType_def exTC_def
        diagnose_def)

section \<open>Properties of capture analysis\<close>




end
